theory Spec2Isabelle
  imports Main "HOL-Library.AList" "HOL-Library.Char_ord" "HOL-Library.List_Lexorder"
    "HOL-Library.Product_Lexorder"
begin

section \<open>Python values used by the region engine\<close>

text \<open>
  The engine of \<^verbatim>\<open>sapn/regions/regions.py\<close> works on Python dictionaries from state
  names to unbounded integers.  A dictionary is modelled as an association list in
  insertion order (the order \<^verbatim>\<open>keys()\<close>, \<^verbatim>\<open>values()\<close> and \<^verbatim>\<open>items()\<close> enumerate);
  a dictionary never holds a key twice, which is the property \<open>distinct (dict_keys d)\<close>.
  State and event names are strings in the source; the model only needs that they can
  be compared and sorted, so they are type variables of class \<open>linorder\<close>.
  Exceptions are values of type \<open>error\<close>; output written by \<^verbatim>\<open>print\<close> is not modelled.
\<close>

datatype error = ValueError | KeyError | TypeError | AttributeError | OverflowError

type_synonym 'a result = "error + 'a"

definition bind_r :: "'a result \<Rightarrow> ('a \<Rightarrow> 'b result) \<Rightarrow> 'b result" where
  "bind_r r f = (case r of Inl e \<Rightarrow> Inl e | Inr v \<Rightarrow> f v)"

fun mapM_r :: "('a \<Rightarrow> 'b result) \<Rightarrow> 'a list \<Rightarrow> 'b list result" where
  "mapM_r f [] = Inr []"
| "mapM_r f (x # xs) =
     (case f x of Inl e \<Rightarrow> Inl e
      | Inr y \<Rightarrow> (case mapM_r f xs of Inl e \<Rightarrow> Inl e | Inr ys \<Rightarrow> Inr (y # ys)))"

type_synonym 's marking = "('s \<times> int) list"

definition dict_keys :: "('k \<times> 'v) list \<Rightarrow> 'k list" where
  "dict_keys d = map fst d"

definition dict_values :: "('k \<times> 'v) list \<Rightarrow> 'v list" where
  "dict_values d = map snd d"

text \<open>\<^verbatim>\<open>d.get(k)\<close>: the value, or \<^verbatim>\<open>None\<close> for a missing key.\<close>

definition dict_get :: "('k \<times> 'v) list \<Rightarrow> 'k \<Rightarrow> 'v option" where
  "dict_get d k = map_of d k"

text \<open>\<^verbatim>\<open>d[k]\<close>: the value, or \<^verbatim>\<open>KeyError\<close> for a missing key.\<close>

definition dict_index :: "('k \<times> 'v) list \<Rightarrow> 'k \<Rightarrow> 'v result" where
  "dict_index d k = (case map_of d k of None \<Rightarrow> Inl KeyError | Some v \<Rightarrow> Inr v)"

text \<open>\<^verbatim>\<open>d[k] = v\<close>: an existing key keeps its position, a new key goes to the end.\<close>

definition dict_set :: "('k \<times> 'v) list \<Rightarrow> 'k \<Rightarrow> 'v \<Rightarrow> ('k \<times> 'v) list" where
  "dict_set d k v = AList.update k v d"

text \<open>\<^verbatim>\<open>a == b\<close> on dictionaries: the same keys with the same values, in any order.\<close>

definition dict_eq :: "('k \<times> 'v) list \<Rightarrow> ('k \<times> 'v) list \<Rightarrow> bool" where
  "dict_eq a b \<longleftrightarrow>
     set (dict_keys a) = set (dict_keys b) \<and> list_all (\<lambda>k. dict_get a k = dict_get b k) (dict_keys a)"

text \<open>\<^verbatim>\<open>a.keys() == b.keys()\<close> compares the two key views as sets.\<close>

definition keys_eq :: "('k \<times> 'v) list \<Rightarrow> ('k \<times> 'w) list \<Rightarrow> bool" where
  "keys_eq a b \<longleftrightarrow> set (dict_keys a) = set (dict_keys b)"

text \<open>\<^verbatim>\<open>max(xs)\<close> and \<^verbatim>\<open>min(xs)\<close> raise \<^verbatim>\<open>ValueError\<close> on an empty list.\<close>

fun py_max :: "int list \<Rightarrow> int result" where
  "py_max [] = Inl ValueError"
| "py_max (x # xs) = Inr (fold max xs x)"

fun py_min :: "int list \<Rightarrow> int result" where
  "py_min [] = Inl ValueError"
| "py_min (x # xs) = Inr (fold min xs x)"

text \<open>\<^verbatim>\<open>len(set(xs))\<close>: the number of distinct elements.\<close>

definition len_set :: "int list \<Rightarrow> nat" where
  "len_set xs = length (remdups xs)"

section \<open>Multiset algebra\<close>

text \<open>\<^verbatim>\<open>get_power_of_multiset\<close> is \<^verbatim>\<open>max(list(multiset.values()))\<close>.\<close>

definition get_power_of_multiset :: "'s marking \<Rightarrow> int result" where
  "get_power_of_multiset multiset = py_max (dict_values multiset)"

definition is_trivial :: "'s marking \<Rightarrow> bool" where
  "is_trivial multiset = list_all (\<lambda>v. v \<ge> 1) (dict_values multiset)"

text \<open>
  Each of the four binary operations has the shape
  \<^verbatim>\<open>try: if not a.keys() == b.keys(): raise ValueError(...); <body>  except ValueError: print(...); return None\<close>
  (\<^verbatim>\<open>return False\<close> in \<^verbatim>\<open>is_subset\<close>).  The \<open>_try\<close> functions are the bodies of the
  \<^verbatim>\<open>try\<close> blocks, the functions named as in the source add the handler.  In the body the
  keys of both arguments agree, so the lookups \<^verbatim>\<open>multiset_a[k]\<close>, \<^verbatim>\<open>multiset_b[k]\<close> and
  \<^verbatim>\<open>multiset_b.get(k)\<close> find their key.  \<open>pointwise f\<close> is the loop
  \<^verbatim>\<open>for k in keys: result[k] = f(multiset_a[k], multiset_b[k])\<close> over the keys of the first
  argument.  The Python value \<^verbatim>\<open>None\<close> returned by the handler is \<open>None\<close>.
\<close>

definition is_subset_try :: "'s marking \<Rightarrow> 's marking \<Rightarrow> bool result" where
  "is_subset_try multiset_a multiset_b =
     (if \<not> keys_eq multiset_a multiset_b then Inl ValueError
      else Inr (list_all (\<lambda>(k, v). v \<le> the (dict_get multiset_b k)) multiset_a))"

definition is_subset :: "'s marking \<Rightarrow> 's marking \<Rightarrow> bool" where
  "is_subset multiset_a multiset_b =
     (case is_subset_try multiset_a multiset_b of Inl e \<Rightarrow> False | Inr b \<Rightarrow> b)"

definition pointwise :: "(int \<Rightarrow> int \<Rightarrow> int) \<Rightarrow> 's marking \<Rightarrow> 's marking \<Rightarrow> 's marking" where
  "pointwise f multiset_a multiset_b =
     map (\<lambda>k. (k, f (the (dict_get multiset_a k)) (the (dict_get multiset_b k))))
       (dict_keys multiset_a)"

definition pointwise_try ::
  "(int \<Rightarrow> int \<Rightarrow> int) \<Rightarrow> 's marking \<Rightarrow> 's marking \<Rightarrow> 's marking result" where
  "pointwise_try f multiset_a multiset_b =
     (if \<not> keys_eq multiset_a multiset_b then Inl ValueError
      else Inr (pointwise f multiset_a multiset_b))"

text \<open>
  The handler \<^verbatim>\<open>except ValueError\<close>.  The guarded bodies raise no other exception
  (\<open>pointwise_try_error\<close> below), so every error reaching the handler is the
  \<^verbatim>\<open>ValueError\<close> of the key test.
\<close>

definition catch_ValueError :: "'a result \<Rightarrow> 'a option" where
  "catch_ValueError r = (case r of Inl e \<Rightarrow> None | Inr v \<Rightarrow> Some v)"

definition get_union_of_multisets :: "'s marking \<Rightarrow> 's marking \<Rightarrow> 's marking option" where
  "get_union_of_multisets multiset_a multiset_b =
     catch_ValueError (pointwise_try max multiset_a multiset_b)"

definition get_intersection_of_multisets :: "'s marking \<Rightarrow> 's marking \<Rightarrow> 's marking option" where
  "get_intersection_of_multisets multiset_a multiset_b =
     catch_ValueError (pointwise_try min multiset_a multiset_b)"

definition get_difference_of_multisets :: "'s marking \<Rightarrow> 's marking \<Rightarrow> 's marking option" where
  "get_difference_of_multisets multiset_a multiset_b =
     catch_ValueError (pointwise_try (\<lambda>x y. max 0 (x - y)) multiset_a multiset_b)"

section \<open>The transition system\<close>

text \<open>
  \<^verbatim>\<open>SATransitionSystem\<close> keeps Python sets of states, events and transitions; the
  engine reads them through \<^verbatim>\<open>get_state_names\<close>, \<^verbatim>\<open>get_event_names\<close>,
  \<^verbatim>\<open>get_all_state_transitions\<close> and \<^verbatim>\<open>get_state_transition_by_event\<close>, each of
  which returns a set (of names, or of triples \<^verbatim>\<open>(from, event, to)\<close>).  The record holds
  the three sets as the lists a \<^verbatim>\<open>for\<close> loop enumerates them in; the order is
  arbitrary and no theorem below depends on it.
\<close>

record ('s, 'e) sa_transition_system =
  states :: "'s list"
  events :: "'e list"
  transitions :: "('s \<times> 'e \<times> 's) list"

definition get_state_names :: "('s, 'e) sa_transition_system \<Rightarrow> 's list" where
  "get_state_names ts = states ts"

definition get_event_names :: "('s, 'e) sa_transition_system \<Rightarrow> 'e list" where
  "get_event_names ts = events ts"

definition get_all_state_transitions ::
  "('s, 'e) sa_transition_system \<Rightarrow> ('s \<times> 'e \<times> 's) list" where
  "get_all_state_transitions ts = transitions ts"

definition get_state_transition_by_event ::
  "'e \<Rightarrow> ('s, 'e) sa_transition_system \<Rightarrow> ('s \<times> 'e \<times> 's) list" where
  "get_state_transition_by_event event_name ts =
     filter (\<lambda>st. fst (snd st) = event_name) (transitions ts)"

text \<open>
  The invariant of the container (\<^verbatim>\<open>add_transition\<close> creates both end states before
  it adds the arc): every state a transition mentions is a state of the system.
\<close>

definition wf_ts :: "('s, 'e) sa_transition_system \<Rightarrow> bool" where
  "wf_ts ts \<longleftrightarrow>
     list_all (\<lambda>st. fst st \<in> set (states ts) \<and> snd (snd st) \<in> set (states ts)) (transitions ts)"

text \<open>
  A marking of the system: a dictionary (its keys are distinct) whose keys are the
  state names, as \<^verbatim>\<open>is_valid_multiset\<close> tests.
\<close>

definition marking_over :: "('s, 'e) sa_transition_system \<Rightarrow> 's marking \<Rightarrow> bool" where
  "marking_over ts m \<longleftrightarrow> distinct (dict_keys m) \<and> set (dict_keys m) = set (states ts)"

section \<open>Queries on the transition system\<close>

text \<open>
  \<^verbatim>\<open>get_excitation_set_by_event\<close>: every state name gets 0, the source of every
  transition of the event gets 1, and the result is \<^verbatim>\<open>dict(sorted(d.items()))\<close>, the
  items sorted as Python sorts tuples (lexicographically, here by key since the keys of
  a dictionary are distinct).  An unknown event raises and catches \<^verbatim>\<open>ValueError\<close> and
  returns \<^verbatim>\<open>None\<close>.
\<close>

definition get_excitation_set_by_event ::
  "'e \<Rightarrow> ('s::linorder, 'e) sa_transition_system \<Rightarrow> 's marking option" where
  "get_excitation_set_by_event event_name ts =
     (if event_name \<in> set (get_event_names ts) then
        Some (sort
          (fold (\<lambda>st d. if fst (snd st) = event_name then dict_set d (fst st) 1 else d)
             (get_all_state_transitions ts)
             (fold (\<lambda>k d. dict_set d k 0) (get_state_names ts) [])))
      else None)"

definition get_switching_set_by_event ::
  "'e \<Rightarrow> ('s::linorder, 'e) sa_transition_system \<Rightarrow> 's marking option" where
  "get_switching_set_by_event event_name ts =
     (if event_name \<in> set (get_event_names ts) then
        Some (sort
          (fold (\<lambda>st d. if fst (snd st) = event_name then dict_set d (snd (snd st)) 1 else d)
             (get_all_state_transitions ts)
             (fold (\<lambda>k d. dict_set d k 0) (get_state_names ts) [])))
      else None)"

definition get_excitation_sets ::
  "('s::linorder, 'e) sa_transition_system \<Rightarrow> ('e \<times> 's marking option) list" where
  "get_excitation_sets ts =
     fold (\<lambda>e d. dict_set d e (get_excitation_set_by_event e ts)) (get_event_names ts) []"

definition get_switching_sets ::
  "('s::linorder, 'e) sa_transition_system \<Rightarrow> ('e \<times> 's marking option) list" where
  "get_switching_sets ts =
     fold (\<lambda>e d. dict_set d e (get_switching_set_by_event e ts)) (get_event_names ts) []"

text \<open>
  \<^verbatim>\<open>get_gradient_of_event\<close>: \<^verbatim>\<open>multiset.get(st[2]) - multiset.get(st[0])\<close> for every
  transition of the event; \<^verbatim>\<open>get\<close> gives \<^verbatim>\<open>None\<close> for a missing key and the
  subtraction then raises \<^verbatim>\<open>TypeError\<close>.
\<close>

definition gradient_of_arc :: "'s marking \<Rightarrow> ('s \<times> 'e \<times> 's) \<Rightarrow> int result" where
  "gradient_of_arc multiset st =
     (case dict_get multiset (snd (snd st)) of
        None \<Rightarrow> Inl TypeError
      | Some a \<Rightarrow> (case dict_get multiset (fst st) of None \<Rightarrow> Inl TypeError | Some b \<Rightarrow> Inr (a - b)))"

definition get_gradient_of_event ::
  "'e \<Rightarrow> 's marking \<Rightarrow> ('s, 'e) sa_transition_system \<Rightarrow> int list result" where
  "get_gradient_of_event event_name multiset ts =
     mapM_r (gradient_of_arc multiset)
       (filter (\<lambda>st. fst (snd st) = event_name) (get_all_state_transitions ts))"

definition get_gradients_for_multisets ::
  "'s marking \<Rightarrow> ('s, 'e) sa_transition_system \<Rightarrow> ('e \<times> int list) list result" where
  "get_gradients_for_multisets multiset ts =
     bind_r (mapM_r (\<lambda>e. bind_r (get_gradient_of_event e multiset ts) (\<lambda>grad. Inr (e, grad)))
               (get_event_names ts))
       (\<lambda>ps. Inr (fold (\<lambda>p d. dict_set d (fst p) (snd p)) ps []))"

section \<open>Region predicate\<close>

text \<open>
  \<^verbatim>\<open>is_region\<close> returns \<^verbatim>\<open>False\<close> at the first event whose gradient list does not have
  exactly one distinct value, and \<^verbatim>\<open>True\<close> when there is none.
\<close>

definition is_region :: "'s marking \<Rightarrow> ('s, 'e) sa_transition_system \<Rightarrow> bool result" where
  "is_region multiset ts =
     bind_r (get_gradients_for_multisets multiset ts)
       (\<lambda>gradients. Inr (list_all (\<lambda>g. len_set g = 1) (dict_values gradients)))"

section \<open>Expansion kernel\<close>

text \<open>
  \<^verbatim>\<open>get_delta_g\<close> collects \<^verbatim>\<open>multiset[st[2]] - multiset[st[0]] - g\<close> over the transitions
  of the event that leave \<^verbatim>\<open>state_name\<close>, and returns 0 for an empty collection and
  \<^verbatim>\<open>max(0, max(max_values))\<close> otherwise.  \<^verbatim>\<open>get_delta_G\<close> does the same with
  \<^verbatim>\<open>multiset[st[0]] - multiset[st[2]] + g\<close> over the transitions that enter the state.
\<close>

definition get_delta_g ::
  "int \<Rightarrow> 's marking \<Rightarrow> 'e \<Rightarrow> 's \<Rightarrow> ('s, 'e) sa_transition_system \<Rightarrow> int result" where
  "get_delta_g g multiset event_name state_name ts =
     bind_r (mapM_r (\<lambda>st. bind_r (dict_index multiset (snd (snd st))) (\<lambda>a.
                            bind_r (dict_index multiset (fst st)) (\<lambda>b. Inr (a - b - g))))
               (filter (\<lambda>st. fst st = state_name) (get_state_transition_by_event event_name ts)))
       (\<lambda>max_values. if max_values = [] then Inr 0
                      else bind_r (py_max max_values) (\<lambda>mx. Inr (max 0 mx)))"

definition get_delta_G ::
  "int \<Rightarrow> 's marking \<Rightarrow> 'e \<Rightarrow> 's \<Rightarrow> ('s, 'e) sa_transition_system \<Rightarrow> int result" where
  "get_delta_G g multiset event_name state_name ts =
     bind_r (mapM_r (\<lambda>st. bind_r (dict_index multiset (fst st)) (\<lambda>a.
                            bind_r (dict_index multiset (snd (snd st))) (\<lambda>b. Inr (a - b + g))))
               (filter (\<lambda>st. snd (snd st) = state_name) (get_state_transition_by_event event_name ts)))
       (\<lambda>max_values. if max_values = [] then Inr 0
                      else bind_r (py_max max_values) (\<lambda>mx. Inr (max 0 mx)))"

text \<open>
  Both expansions raise \<^verbatim>\<open>ValueError\<close> unless the keys of the marking are the state
  names, and then build a new dictionary key by key, in the order of the marking.
\<close>

definition get_multiset_expansion_on_event_by_g ::
  "int \<Rightarrow> 'e \<Rightarrow> 's marking \<Rightarrow> ('s, 'e) sa_transition_system \<Rightarrow> 's marking result" where
  "get_multiset_expansion_on_event_by_g g event_name multiset ts =
     (if set (dict_keys multiset) \<noteq> set (get_state_names ts) then Inl ValueError
      else mapM_r (\<lambda>key. bind_r (dict_index multiset key) (\<lambda>v.
                          bind_r (get_delta_g g multiset event_name key ts) (\<lambda>d. Inr (key, v + d))))
             (dict_keys multiset))"

definition get_multiset_expansion_on_event_by_G ::
  "int \<Rightarrow> 'e \<Rightarrow> 's marking \<Rightarrow> ('s, 'e) sa_transition_system \<Rightarrow> 's marking result" where
  "get_multiset_expansion_on_event_by_G g event_name multiset ts =
     (if set (dict_keys multiset) \<noteq> set (get_state_names ts) then Inl ValueError
      else mapM_r (\<lambda>key. bind_r (dict_index multiset key) (\<lambda>v.
                          bind_r (get_delta_G g multiset event_name key ts) (\<lambda>d. Inr (key, v + d))))
             (dict_keys multiset))"

section \<open>Illegal events and the choice of the event to repair\<close>

text \<open>
  \<^verbatim>\<open>__get_gradient_for_binary_search\<close> is \<^verbatim>\<open>int(math.floor((g_min+g_max)/2))\<close>: the
  quotient is a double, the integer quotient rounded to nearest, ties to even.  Below
  \<open>2 ^ 53\<close> in absolute value the sum and its half are exact and the result is the floor
  of the half.  From \<open>2 ^ 53\<close> on the sum is rounded to 53 significant bits before it is
  halved (the result is then a whole number, which \<^verbatim>\<open>floor\<close> leaves alone), and a
  quotient of \<open>2 ^ 1024\<close> or more raises \<^verbatim>\<open>OverflowError\<close>.
\<close>

fun bit_length :: "nat \<Rightarrow> nat" where
  "bit_length n = (if n = 0 then 0 else Suc (bit_length (n div 2)))"

declare bit_length.simps [simp del]

definition round_to_double :: "int \<Rightarrow> int" where
  "round_to_double a =
     (let sh = bit_length (nat a) - 53;
          q = a div 2 ^ sh;
          r = a mod 2 ^ sh;
          h = 2 ^ (sh - 1)
      in (if h < r \<or> (r = h \<and> odd q) then q + 1 else q) * 2 ^ sh)"

definition get_gradient_for_binary_search :: "int \<Rightarrow> int \<Rightarrow> int result" where
  "get_gradient_for_binary_search g_min g_max =
     (let x = g_min + g_max in
      if \<bar>x\<bar> < 2 ^ 53 then Inr (x div 2)
      else if 2 ^ 1025 \<le> round_to_double \<bar>x\<bar> then Inl OverflowError
      else Inr (sgn x * (round_to_double \<bar>x\<bar> div 2)))"

text \<open>
  \<^verbatim>\<open>get_illegal_events\<close> sorts the items of the gradient dictionary (by event name,
  the keys being distinct) and walks through them: an event whose gradient list does not have exactly one distinct value contributes
  \<^verbatim>\<open>(key, min, max, midpoint)\<close>; \<^verbatim>\<open>min\<close> of an empty gradient list raises
  \<^verbatim>\<open>ValueError\<close>.
\<close>

fun illegal_events_loop :: "('e \<times> int list) list \<Rightarrow> ('e \<times> int \<times> int \<times> int) list result" where
  "illegal_events_loop [] = Inr []"
| "illegal_events_loop (p # rest) =
     (if len_set (snd p) \<noteq> 1 then
        bind_r (py_min (snd p)) (\<lambda>g_min.
        bind_r (py_max (snd p)) (\<lambda>g_max.
        bind_r (get_gradient_for_binary_search g_min g_max) (\<lambda>g_e.
        bind_r (illegal_events_loop rest) (\<lambda>lst. Inr ((fst p, g_min, g_max, g_e) # lst)))))
      else illegal_events_loop rest)"

definition get_illegal_events ::
  "'s marking \<Rightarrow> ('s, 'e::linorder) sa_transition_system \<Rightarrow> ('e \<times> int \<times> int \<times> int) list result" where
  "get_illegal_events multiset ts =
     bind_r (get_gradients_for_multisets multiset ts)
       (\<lambda>gradients. illegal_events_loop (sort gradients))"

text \<open>
  \<^verbatim>\<open>__get_event_gradient_for_expansion\<close> is \<^verbatim>\<open>max(tuples_list, key=lambda x: abs(x[3]))\<close>:
  \<^verbatim>\<open>max\<close> keeps the first element and replaces it only by a later one with a strictly
  larger key; an empty list raises \<^verbatim>\<open>ValueError\<close>.
\<close>

fun max_by_key :: "('a \<Rightarrow> int) \<Rightarrow> 'a list \<Rightarrow> 'a \<Rightarrow> 'a" where
  "max_by_key f [] best = best"
| "max_by_key f (x # xs) best = max_by_key f xs (if f best < f x then x else best)"

fun min_by_key :: "('a \<Rightarrow> int) \<Rightarrow> 'a list \<Rightarrow> 'a \<Rightarrow> 'a" where
  "min_by_key f [] best = best"
| "min_by_key f (x # xs) best = min_by_key f xs (if f x < f best then x else best)"

definition get_event_gradient_for_expansion ::
  "('e \<times> int \<times> int \<times> int) list \<Rightarrow> ('e \<times> int \<times> int \<times> int) result" where
  "get_event_gradient_for_expansion tuples_list =
     (case tuples_list of [] \<Rightarrow> Inl ValueError
      | t # rest \<Rightarrow> Inr (max_by_key (\<lambda>x. \<bar>snd (snd (snd x))\<bar>) rest t))"

section \<open>Seeds\<close>

text \<open>
  \<^verbatim>\<open>get_candidates\<close>: the values of the excitation sets, then those of the switching
  sets.
\<close>

definition get_candidates ::
  "('s::linorder, 'e) sa_transition_system \<Rightarrow> 's marking option list" where
  "get_candidates ts = dict_values (get_excitation_sets ts) @ dict_values (get_switching_sets ts)"

text \<open>
  \<^verbatim>\<open>__remove_duplicates\<close> keeps the first dictionary of every value of
  \<^verbatim>\<open>tuple(sorted(d.items()))\<close>; \<open>seen\<close> is the set of the tuples met so far.
\<close>

fun remove_duplicates_loop ::
  "('s::linorder) marking list \<Rightarrow> 's marking list \<Rightarrow> 's marking list" where
  "remove_duplicates_loop [] seen = []"
| "remove_duplicates_loop (d # ds) seen =
     (if sort d \<in> set seen then remove_duplicates_loop ds seen
      else d # remove_duplicates_loop ds (sort d # seen))"

definition remove_duplicates :: "('s::linorder) marking list \<Rightarrow> 's marking list" where
  "remove_duplicates list_of_multisets = remove_duplicates_loop list_of_multisets []"

definition has_subset_of_list :: "'s marking \<Rightarrow> 's marking list \<Rightarrow> bool" where
  "has_subset_of_list multiset lst_of_multisets =
     list_ex (\<lambda>m. is_subset m multiset) lst_of_multisets"

text \<open>
  \<^verbatim>\<open>__remove_supersets\<close>, and the loop at the end of the driver, keep a marking when no
  other marking of the list (\<^verbatim>\<open>e != m\<close>) is a subset of it.
\<close>

definition remove_supersets :: "'s marking list \<Rightarrow> 's marking list" where
  "remove_supersets list_of_multisets =
     filter (\<lambda>m. \<not> has_subset_of_list m (filter (\<lambda>e. \<not> dict_eq e m) list_of_multisets))
       list_of_multisets"

definition is_valid_candidate :: "int \<Rightarrow> 's marking \<Rightarrow> bool result" where
  "is_valid_candidate k multiset =
     bind_r (get_power_of_multiset multiset) (\<lambda>p. Inr (p \<le> k \<and> \<not> is_trivial multiset))"

section \<open>Search driver\<close>

text \<open>
  The list \<^verbatim>\<open>explored\<close> receives dictionaries from the outer loop and lists of values
  from \<^verbatim>\<open>multiset_expansion\<close>; the test \<^verbatim>\<open>list(r_hat.values()) in explored\<close> compares a
  list of values with each entry, and a list never equals a dictionary.
\<close>

datatype 's explored_entry = Dict "'s marking" | Values "int list"

text \<open>\<^verbatim>\<open>l.pop(idx)\<close> leaves the list without its element at \<^verbatim>\<open>idx\<close>.\<close>

definition list_pop :: "'a list \<Rightarrow> nat \<Rightarrow> 'a list" where
  "list_pop l idx = take idx l @ drop (Suc idx) l"

text \<open>
  \<^verbatim>\<open>min(range(len(l)), key=...)\<close> and \<^verbatim>\<open>max(range(len(l)), key=...)\<close>: the first index
  with the smallest (largest) key; \<^verbatim>\<open>ValueError\<close> on an empty range.
\<close>

definition index_min :: "(nat \<Rightarrow> int) \<Rightarrow> nat \<Rightarrow> nat result" where
  "index_min f n = (case [0..<n] of [] \<Rightarrow> Inl ValueError | i # rest \<Rightarrow> Inr (min_by_key f rest i))"

definition index_max :: "(nat \<Rightarrow> int) \<Rightarrow> nat \<Rightarrow> nat result" where
  "index_max f n = (case [0..<n] of [] \<Rightarrow> Inl ValueError | i # rest \<Rightarrow> Inr (max_by_key f rest i))"

text \<open>
  The loop \<^verbatim>\<open>for i in [r_1, r_2]\<close> of \<^verbatim>\<open>multiset_expansion\<close>, on the work list \<open>r\<close> and
  the lists \<open>discovered\<close> and \<open>explored\<close>.
\<close>

fun expansion_children ::
  "int \<Rightarrow> ('s, 'e) sa_transition_system \<Rightarrow> 's marking list \<Rightarrow>
   's marking list \<Rightarrow> 's marking list \<Rightarrow> 's explored_entry list \<Rightarrow>
   ('s marking list \<times> 's marking list \<times> 's explored_entry list) result" where
  "expansion_children k ts [] r discovered explored = Inr (r, discovered, explored)"
| "expansion_children k ts (i # rest) r discovered explored =
     (if Values (dict_values i) \<in> set explored then
        expansion_children k ts rest r discovered explored
      else
        case is_valid_candidate k i of
          Inl e \<Rightarrow> Inl e
        | Inr True \<Rightarrow>
            (case is_region i ts of
               Inl e \<Rightarrow> Inl e
             | Inr True \<Rightarrow>
                 expansion_children k ts rest r (discovered @ [i])
                   (explored @ [Values (dict_values i)])
             | Inr False \<Rightarrow> expansion_children k ts rest (r @ [i]) discovered explored)
        | Inr False \<Rightarrow>
            expansion_children k ts rest r discovered (explored @ [Values (dict_values i)]))"

text \<open>
  The \<^verbatim>\<open>while r:\<close> loop of \<^verbatim>\<open>multiset_expansion\<close>.  Nothing in the source bounds
  the number of its iterations, so the loop takes fuel: \<open>None\<close> is a loop that has not
  returned within \<open>fuel\<close> iterations.
\<close>

fun expansion_loop ::
  "nat \<Rightarrow> int \<Rightarrow> ('s, 'e::linorder) sa_transition_system \<Rightarrow> 's marking list \<Rightarrow>
   's marking list \<Rightarrow> 's explored_entry list \<Rightarrow> nat \<Rightarrow>
   ('s marking list \<times> 's explored_entry list \<times> nat) result option" where
  "expansion_loop 0 k ts r discovered explored niter = None"
| "expansion_loop (Suc fuel) k ts r discovered explored niter =
     (if r = [] then Some (Inr (discovered, explored, niter))
      else
        case index_max (\<lambda>i. sum_list (dict_values (r ! i))) (length r) of
          Inl e \<Rightarrow> Some (Inl e)
        | Inr idx \<Rightarrow>
            let r_hat = r ! idx; r' = list_pop r idx in
            if Values (dict_values r_hat) \<in> set explored then
              expansion_loop fuel k ts r' discovered explored (niter + 1)
            else
              (case get_illegal_events r_hat ts of
                 Inl e \<Rightarrow> Some (Inl e)
               | Inr lst_non_constant_events \<Rightarrow>
              (case get_event_gradient_for_expansion lst_non_constant_events of
                 Inl e \<Rightarrow> Some (Inl e)
               | Inr (event_name, g_min, g_max, g_e) \<Rightarrow>
              (case get_multiset_expansion_on_event_by_g g_e event_name r_hat ts of
                 Inl e \<Rightarrow> Some (Inl e)
               | Inr r_1 \<Rightarrow>
              (case get_multiset_expansion_on_event_by_G (g_e + 1) event_name r_hat ts of
                 Inl e \<Rightarrow> Some (Inl e)
               | Inr r_2 \<Rightarrow>
              (case expansion_children k ts [r_1, r_2] r' discovered
                      (explored @ [Values (dict_values r_hat)]) of
                 Inl e \<Rightarrow> Some (Inl e)
               | Inr (r'', discovered', explored') \<Rightarrow>
                   expansion_loop fuel k ts r'' discovered' explored' (niter + 1)))))))"

definition multiset_expansion ::
  "nat \<Rightarrow> int \<Rightarrow> 's marking \<Rightarrow> nat \<Rightarrow> ('s, 'e::linorder) sa_transition_system \<Rightarrow>
   's marking list \<Rightarrow> 's explored_entry list \<Rightarrow>
   ('s marking list \<times> 's explored_entry list \<times> nat) result option" where
  "multiset_expansion fuel k multiset niter ts discovered_minimal_regions explored_multisets =
     expansion_loop fuel k ts [multiset] discovered_minimal_regions explored_multisets niter"

text \<open>
  The outer \<^verbatim>\<open>while candidates:\<close> loop of \<^verbatim>\<open>generate_all_minimal_regions_v1\<close>.
  Every iteration pops one candidate and none is ever added, which is the termination
  argument; \<open>fuel\<close> is only handed to \<^verbatim>\<open>multiset_expansion\<close>.  The popped candidate
  \<^verbatim>\<open>r_tilde\<close> is \<open>candidates ! idx\<close>.
\<close>

lemma min_by_key_mem: "min_by_key f xs b \<in> set (b # xs)"
  by (induction xs arbitrary: b) auto

lemma max_by_key_mem: "max_by_key f xs b \<in> set (b # xs)"
  by (induction xs arbitrary: b) auto

lemma index_min_less: "index_min f n = Inr i \<Longrightarrow> i < n"
proof -
  assume a: "index_min f n = Inr i"
  then obtain j rest where u: "[0..<n] = j # rest" and i: "i = min_by_key f rest j"
    by (auto simp: index_min_def split: list.splits)
  have "i \<in> set (j # rest)" using i min_by_key_mem by metis
  then have "i \<in> set [0..<n]" using u by simp
  then show ?thesis by simp
qed

lemma index_max_less: "index_max f n = Inr i \<Longrightarrow> i < n"
proof -
  assume a: "index_max f n = Inr i"
  then obtain j rest where u: "[0..<n] = j # rest" and i: "i = max_by_key f rest j"
    by (auto simp: index_max_def split: list.splits)
  have "i \<in> set (j # rest)" using i max_by_key_mem by metis
  then have "i \<in> set [0..<n]" using u by simp
  then show ?thesis by simp
qed

lemma length_list_pop: "idx < length l \<Longrightarrow> length (list_pop l idx) < length l"
  by (simp add: list_pop_def)

function region_search ::
  "nat \<Rightarrow> int \<Rightarrow> ('s, 'e::linorder) sa_transition_system \<Rightarrow> 's marking list \<Rightarrow>
   's marking list \<Rightarrow> 's explored_entry list \<Rightarrow> nat \<Rightarrow>
   ('s marking list \<times> 's explored_entry list \<times> nat) result option" where
  "region_search fuel k ts candidates discovered explored iterations =
     (if candidates = [] then Some (Inr (discovered, explored, iterations))
      else
        case index_min (\<lambda>i. sum_list (dict_values (candidates ! i))) (length candidates) of
          Inl e \<Rightarrow> Some (Inl e)
        | Inr idx \<Rightarrow>
            (case is_region (candidates ! idx) ts of
               Inl e \<Rightarrow> Some (Inl e)
             | Inr True \<Rightarrow>
                 if \<not> list_ex (dict_eq (candidates ! idx)) discovered then
                   region_search fuel k ts (list_pop candidates idx)
                     (discovered @ [candidates ! idx]) (explored @ [Dict (candidates ! idx)])
                     (iterations + 1)
                 else
                   region_search fuel k ts (list_pop candidates idx) discovered explored
                     (iterations + 1)
             | Inr False \<Rightarrow>
                 (case multiset_expansion fuel k (candidates ! idx) iterations ts
                         discovered explored of
                    None \<Rightarrow> None
                  | Some (Inl e) \<Rightarrow> Some (Inl e)
                  | Some (Inr (discovered', explored', niter)) \<Rightarrow>
                      region_search fuel k ts (list_pop candidates idx)
                        discovered' explored' niter)))"
  by pat_completeness auto
termination
  by (relation "measure (\<lambda>(fuel, k, ts, candidates, rest). length candidates)")
     (auto dest!: index_min_less intro: length_list_pop)

declare region_search.simps [simp del]

text \<open>
  \<^verbatim>\<open>generate_all_minimal_regions_v1\<close>: the seeds without duplicates and supersets, the
  search, then the filter that drops every discovered region which has another
  discovered region as a subset (one more iteration is counted per discovered region),
  and the removal of duplicates.  A seed that is \<^verbatim>\<open>None\<close> would stop
  \<^verbatim>\<open>__remove_duplicates\<close> at \<^verbatim>\<open>d.items()\<close> with \<^verbatim>\<open>AttributeError\<close>.
\<close>

definition generate_all_minimal_regions_v1 ::
  "nat \<Rightarrow> int \<Rightarrow> ('s::linorder, 'e::linorder) sa_transition_system \<Rightarrow>
   ('s marking list \<times> 's explored_entry list \<times> nat) result option" where
  "generate_all_minimal_regions_v1 fuel k ts =
     (case those (get_candidates ts) of
        None \<Rightarrow> Some (Inl AttributeError)
      | Some candidates \<Rightarrow>
          (case region_search fuel k ts (remove_supersets (remove_duplicates candidates)) [] [] 0 of
             None \<Rightarrow> None
           | Some (Inl e) \<Rightarrow> Some (Inl e)
           | Some (Inr (discovered, explored, iterations)) \<Rightarrow>
               Some (Inr (remove_duplicates (remove_supersets discovered), explored,
                          iterations + length discovered))))"

section \<open>The expansion deltas as the specification words them\<close>

text \<open>
  \<open>\<delta>_g(r,e,s,g)\<close> is the maximum of 0 and of \<open>r(to) - r(s) - g\<close> over the arcs
  \<open>(s,e,to)\<close>, and 0 when there is no such arc; \<open>\<delta>_G(r,e,s,g)\<close> is the maximum of 0 and
  of \<open>r(from) - r(s) + g\<close> over the arcs \<open>(from,e,s)\<close>, and 0 when there is none.
\<close>

definition delta_g_spec ::
  "int \<Rightarrow> 's marking \<Rightarrow> 'e \<Rightarrow> 's \<Rightarrow> ('s, 'e) sa_transition_system \<Rightarrow> int" where
  "delta_g_spec g r e s ts =
     (let V = (\<lambda>st. the (dict_get r (snd (snd st))) - the (dict_get r s) - g) `
                {st \<in> set (transitions ts). fst st = s \<and> fst (snd st) = e}
      in if V = {} then 0 else max 0 (Max V))"

definition delta_G_spec ::
  "int \<Rightarrow> 's marking \<Rightarrow> 'e \<Rightarrow> 's \<Rightarrow> ('s, 'e) sa_transition_system \<Rightarrow> int" where
  "delta_G_spec g r e s ts =
     (let V = (\<lambda>st. the (dict_get r (fst st)) - the (dict_get r s) + g) `
                {st \<in> set (transitions ts). snd (snd st) = s \<and> fst (snd st) = e}
      in if V = {} then 0 else max 0 (Max V))"

section \<open>Sample transition systems\<close>

text \<open>
  The diamond of \<^verbatim>\<open>create_sample_ts\<close>, a single self-loop, and the system left by
  \<^verbatim>\<open>add_transition('a', '', 's1')\<close> on an empty system: the event is registered, the
  empty state name is refused, and no arc is added.
\<close>

definition sample_ts :: "(string, string) sa_transition_system" where
  "sample_ts =
     \<lparr>states = [''s_1'', ''s_2'', ''s_3'', ''s_4''],
      events = [''a'', ''b'', ''c''],
      transitions = [(''s_1'', ''a'', ''s_2''), (''s_1'', ''b'', ''s_3''),
                     (''s_2'', ''c'', ''s_4''), (''s_3'', ''c'', ''s_4'')]\<rparr>"

definition self_loop_ts :: "(string, string) sa_transition_system" where
  "self_loop_ts = \<lparr>states = [''s1''], events = [''a''], transitions = [(''s1'', ''a'', ''s1'')]\<rparr>"

definition arcless_event_ts :: "(string, string) sa_transition_system" where
  "arcless_event_ts = \<lparr>states = [''s1''], events = [''a''], transitions = []\<rparr>"

section \<open>Basic facts\<close>

lemma bind_r_Inr [simp]: "bind_r (Inr v) f = f v"
  by (simp add: bind_r_def)

lemma bind_r_Inl [simp]: "bind_r (Inl e) f = Inl e"
  by (simp add: bind_r_def)

lemma bind_r_eq_Inr: "bind_r r f = Inr y \<longleftrightarrow> (\<exists>v. r = Inr v \<and> f v = Inr y)"
  by (cases r) auto

lemma mapM_r_map: "(\<And>x. x \<in> set xs \<Longrightarrow> f x = Inr (g x)) \<Longrightarrow> mapM_r f xs = Inr (map g xs)"
  by (induction xs) auto

lemma mapM_r_Inr: "mapM_r f xs = Inr ys \<longleftrightarrow> list_all2 (\<lambda>x y. f x = Inr y) xs ys"
proof (induction xs arbitrary: ys)
  case Nil
  then show ?case by auto
next
  case (Cons x xs)
  show ?case
  proof (cases ys)
    case Nil
    then show ?thesis by (simp split: sum.splits)
  next
    case (Cons y ys')
    then show ?thesis using Cons.IH [of ys'] by (auto split: sum.splits)
  qed
qed

lemma py_max_Max: "xs \<noteq> [] \<Longrightarrow> py_max xs = Inr (Max (set xs))"
  by (cases xs) (simp_all add: Max.set_eq_fold [symmetric] del: set_simps)

lemma py_min_Min: "xs \<noteq> [] \<Longrightarrow> py_min xs = Inr (Min (set xs))"
  by (cases xs) (simp_all add: Min.set_eq_fold [symmetric] del: set_simps)

lemma map_of_graph:
  "map_of (map (\<lambda>k. (k, f k)) ks) k = (if k \<in> set ks then Some (f k) else None)"
  by (induction ks) auto

lemma dict_keys_graph [simp]: "dict_keys (map (\<lambda>k. (k, F k)) ks) = ks"
  by (simp add: dict_keys_def comp_def)

lemma dict_get_graph:
  "dict_get (map (\<lambda>k. (k, F k)) ks) k = (if k \<in> set ks then Some (F k) else None)"
  by (simp add: dict_get_def map_of_graph)

lemma dict_get_mem: "k \<in> set (dict_keys a) \<Longrightarrow> \<exists>v. dict_get a k = Some v"
  by (metis dict_get_def dict_keys_def domD dom_map_of_conv_image_fst list.set_map)

lemma dict_index_mem: "k \<in> set (dict_keys r) \<Longrightarrow> dict_index r k = Inr (the (dict_get r k))"
  using dict_get_mem [of k r] by (auto simp: dict_index_def dict_get_def)

section \<open>Power of a marking\<close>

text \<open>
  Claim C8, as the code has it: \<^verbatim>\<open>get_power_of_multiset\<close> returns the maximum of the
  multiplicities of a marking with a non-empty domain and raises \<^verbatim>\<open>ValueError\<close> on the
  empty marking; for a non-empty marking with non-negative multiplicities the power
  is 0 exactly when every multiplicity is 0.
\<close>

theorem power_is_max:
  "get_power_of_multiset multiset =
     (if multiset = [] then Inl ValueError else Inr (Max (set (dict_values multiset))))
   \<and> (multiset \<noteq> [] \<and> (\<forall>v\<in>set (dict_values multiset). 0 \<le> v) \<longrightarrow>
        (get_power_of_multiset multiset = Inr 0 \<longleftrightarrow> (\<forall>v\<in>set (dict_values multiset). v = 0)))"
proof -
  have a: "get_power_of_multiset multiset =
     (if multiset = [] then Inl ValueError else Inr (Max (set (dict_values multiset))))"
    by (simp add: get_power_of_multiset_def dict_values_def py_max_Max)
  have b: "(Max (set (dict_values multiset)) = 0) = (\<forall>v\<in>set (dict_values multiset). v = 0)"
    if ne: "multiset \<noteq> []" and pos: "\<forall>v\<in>set (dict_values multiset). 0 \<le> v"
  proof -
    let ?V = "set (dict_values multiset)"
    have fin: "finite ?V" and nemp: "?V \<noteq> {}" using ne by (simp_all add: dict_values_def)
    show ?thesis
    proof
      assume m: "Max ?V = 0"
      show "\<forall>v\<in>?V. v = 0"
      proof
        fix v assume v: "v \<in> ?V"
        then have "v \<le> Max ?V" using fin by simp
        with m pos v show "v = 0" by force
      qed
    next
      assume z: "\<forall>v\<in>?V. v = 0"
      have "Max ?V \<in> ?V" using fin nemp by (rule Max_in)
      with z show "Max ?V = 0" by blast
    qed
  qed
  show ?thesis using a b by simp
qed

theorem power_is_max_witness:
  "list_all (\<lambda>v. 0 \<le> v) (dict_values [(''s1'', 0::int), (''s2'', 0)])
   \<and> get_power_of_multiset [(''s1'', 0), (''s2'', 0)] = Inr 0
   \<and> list_all (\<lambda>v. v = 0) (dict_values [(''s1'', 0::int), (''s2'', 0)])"
  using power_is_max [of "[(''s1'', 0), (''s2'', 0)]"] by (simp add: dict_values_def)

text \<open>
  The power of the marking with the empty domain is not 0: the call raises
  \<^verbatim>\<open>ValueError\<close>.
\<close>

theorem power_of_empty_marking:
  "get_power_of_multiset ([] :: (string \<times> int) list) = Inl ValueError"
  by (simp add: get_power_of_multiset_def dict_values_def)

section \<open>Domain mismatch in the multiset operations\<close>

lemma pointwise_try_error: "pointwise_try f a b = Inl e \<Longrightarrow> e = ValueError"
  by (auto simp: pointwise_try_def split: if_splits)

lemma is_subset_try_error: "is_subset_try a b = Inl e \<Longrightarrow> e = ValueError"
  by (auto simp: is_subset_try_def split: if_splits)

text \<open>
  Claim C4, as the code has it: on two markings with unequal key sets each operation
  raises \<^verbatim>\<open>ValueError\<close> inside its own \<^verbatim>\<open>try\<close> block and recovers from it in its own
  handler: union, intersection and difference return \<^verbatim>\<open>None\<close>, and \<^verbatim>\<open>is_subset\<close>
  returns \<^verbatim>\<open>False\<close>.  No exception reaches the caller.
\<close>

theorem domain_mismatch_recovered:
  "\<not> keys_eq a b \<Longrightarrow>
     pointwise_try f a b = Inl ValueError \<and> is_subset_try a b = Inl ValueError \<and>
     get_union_of_multisets a b = None \<and> get_intersection_of_multisets a b = None \<and>
     get_difference_of_multisets a b = None \<and> is_subset a b = False"
  by (simp add: pointwise_try_def is_subset_try_def get_union_of_multisets_def
      get_intersection_of_multisets_def get_difference_of_multisets_def is_subset_def
      catch_ValueError_def)

theorem domain_mismatch_recovered_witness:
  "\<not> keys_eq [(''p'', 1::int)] [(''q'', 2::int)] \<and>
   get_union_of_multisets [(''p'', 1)] [(''q'', 2)] = None \<and>
   get_intersection_of_multisets [(''p'', 1)] [(''q'', 2)] = None \<and>
   get_difference_of_multisets [(''p'', 1)] [(''q'', 2)] = None \<and>
   is_subset [(''p'', 1)] [(''q'', 2)] = False"
proof -
  have h: "\<not> keys_eq [(''p'', 1::int)] [(''q'', 2::int)]"
    by (simp add: keys_eq_def dict_keys_def)
  show ?thesis using h domain_mismatch_recovered [OF h, of max] by simp
qed

text \<open>
  The call \<^verbatim>\<open>union({s1:1,s2:0}, {s1:1,s3:0})\<close> of the specification returns the value
  \<^verbatim>\<open>None\<close>; it does not end in an error.
\<close>

theorem union_mismatch_returns_None:
  "get_union_of_multisets [(''s1'', 1), (''s2'', 0)] [(''s1'', 1), (''s3'', 0)] = None"
  by code_simp

section \<open>Laws of union and intersection\<close>

lemma pointwise_try_eq: "keys_eq a b \<Longrightarrow> pointwise_try f a b = Inr (pointwise f a b)"
  by (simp add: pointwise_try_def)

lemma dict_keys_pointwise [simp]: "dict_keys (pointwise f a b) = dict_keys a"
  by (simp add: pointwise_def)

lemma dict_get_pointwise:
  "k \<in> set (dict_keys a) \<Longrightarrow>
     dict_get (pointwise f a b) k = Some (f (the (dict_get a k)) (the (dict_get b k)))"
  by (simp add: pointwise_def dict_get_graph)

lemma keys_eq_pointwise [simp]:
  "keys_eq (pointwise f a b) c = keys_eq a c" "keys_eq c (pointwise f a b) = keys_eq c a"
  by (simp_all add: keys_eq_def)

lemma pointwise_comm:
  "keys_eq a b \<Longrightarrow> (\<And>x y. f x y = f y x) \<Longrightarrow> dict_eq (pointwise f a b) (pointwise f b a)"
  by (auto simp: dict_eq_def keys_eq_def list_all_iff dict_get_pointwise)

lemma pointwise_assoc:
  assumes "keys_eq a b" "keys_eq b c" "\<And>x y z. f (f x y) z = f x (f y z)"
  shows "pointwise f (pointwise f a b) c = pointwise f a (pointwise f b c)"
proof -
  have "\<And>k. k \<in> set (dict_keys a) \<Longrightarrow>
      f (the (dict_get (pointwise f a b) k)) (the (dict_get c k))
        = f (the (dict_get a k)) (the (dict_get (pointwise f b c) k))"
    using assms by (simp add: dict_get_pointwise keys_eq_def)
  then show ?thesis
    unfolding pointwise_def [of f "pointwise f a b" c] pointwise_def [of f a "pointwise f b c"]
    by simp
qed

lemma pointwise_idem: "(\<And>x. f x x = x) \<Longrightarrow> dict_eq (pointwise f a a) a"
  using dict_get_mem [of _ a] by (fastforce simp: dict_eq_def list_all_iff dict_get_pointwise)

text \<open>
  Claim C9: for markings \<open>a\<close>, \<open>b\<close>, \<open>c\<close> over the same domain, union and intersection
  return a marking and are commutative, associative and idempotent.  Equality of the
  results is the equality of Python dictionaries (\<open>dict_eq\<close>): the result of
  \<^verbatim>\<open>union(a, b)\<close> lists its keys in the order of \<open>a\<close>, that of \<^verbatim>\<open>union(b, a)\<close> in the
  order of \<open>b\<close>.  The two sides of associativity are the same list.
\<close>

theorem union_intersection_laws:
  assumes ab: "keys_eq a b" and bc: "keys_eq b c"
  shows "(\<exists>u v. get_union_of_multisets a b = Some u \<and> get_union_of_multisets b a = Some v \<and>
            dict_eq u v)
    \<and> (\<exists>u v w. get_union_of_multisets a b = Some u \<and> get_union_of_multisets b c = Some v \<and>
          get_union_of_multisets u c = Some w \<and> get_union_of_multisets a v = Some w)
    \<and> (\<exists>u. get_union_of_multisets a a = Some u \<and> dict_eq u a)
    \<and> (\<exists>u v. get_intersection_of_multisets a b = Some u \<and>
          get_intersection_of_multisets b a = Some v \<and> dict_eq u v)
    \<and> (\<exists>u v w. get_intersection_of_multisets a b = Some u \<and>
          get_intersection_of_multisets b c = Some v \<and>
          get_intersection_of_multisets u c = Some w \<and>
          get_intersection_of_multisets a v = Some w)
    \<and> (\<exists>u. get_intersection_of_multisets a a = Some u \<and> dict_eq u a)"
proof -
  have ba: "keys_eq b a" and ac: "keys_eq a c" and aa: "keys_eq a a"
    using ab bc by (simp_all add: keys_eq_def)
  have U: "\<And>x y. keys_eq x y \<Longrightarrow> get_union_of_multisets x y = Some (pointwise max x y)"
    by (simp add: get_union_of_multisets_def pointwise_try_eq catch_ValueError_def)
  have I: "\<And>x y. keys_eq x y \<Longrightarrow> get_intersection_of_multisets x y = Some (pointwise min x y)"
    by (simp add: get_intersection_of_multisets_def pointwise_try_eq catch_ValueError_def)
  have c1: "dict_eq (pointwise max a b) (pointwise max b a)"
    by (rule pointwise_comm [OF ab]) (rule max.commute)
  have c2: "dict_eq (pointwise min a b) (pointwise min b a)"
    by (rule pointwise_comm [OF ab]) (rule min.commute)
  have a1: "pointwise max (pointwise max a b) c = pointwise max a (pointwise max b c)"
    by (rule pointwise_assoc [OF ab bc]) (rule max.assoc)
  have a2: "pointwise min (pointwise min a b) c = pointwise min a (pointwise min b c)"
    by (rule pointwise_assoc [OF ab bc]) (rule min.assoc)
  have i1: "dict_eq (pointwise max a a) a" by (rule pointwise_idem) simp
  have i2: "dict_eq (pointwise min a a) a" by (rule pointwise_idem) simp
  show ?thesis
    using ab ba bc ac aa c1 c2 a1 a2 i1 i2 by (simp add: U I)
qed

theorem union_intersection_laws_witness:
  "keys_eq [(''s1'', 1::int), (''s2'', 0)] [(''s2'', 2::int), (''s1'', 0)] \<and>
   keys_eq [(''s2'', 2::int), (''s1'', 0)] [(''s1'', 3::int), (''s2'', 1)] \<and>
   (\<exists>u v. get_union_of_multisets [(''s1'', 1), (''s2'', 0)] [(''s2'', 2), (''s1'', 0)] = Some u \<and>
          get_union_of_multisets [(''s2'', 2), (''s1'', 0)] [(''s1'', 1), (''s2'', 0)] = Some v \<and>
          dict_eq u v) \<and>
   (\<exists>u v w. get_intersection_of_multisets [(''s1'', 1), (''s2'', 0)] [(''s2'', 2), (''s1'', 0)] = Some u \<and>
          get_intersection_of_multisets [(''s2'', 2), (''s1'', 0)] [(''s1'', 3), (''s2'', 1)] = Some v \<and>
          get_intersection_of_multisets u [(''s1'', 3), (''s2'', 1)] = Some w \<and>
          get_intersection_of_multisets [(''s1'', 1), (''s2'', 0)] v = Some w)"
proof -
  have h1: "keys_eq [(''s1'', 1::int), (''s2'', 0)] [(''s2'', 2::int), (''s1'', 0)]"
    by code_simp
  have h2: "keys_eq [(''s2'', 2::int), (''s1'', 0)] [(''s1'', 3::int), (''s2'', 1)]"
    by code_simp
  show ?thesis using h1 h2 union_intersection_laws [OF h1 h2] by blast
qed

section \<open>The two expansions\<close>

lemma wf_ts_arc:
  "wf_ts ts \<Longrightarrow> st \<in> set (transitions ts) \<Longrightarrow>
     fst st \<in> set (states ts) \<and> snd (snd st) \<in> set (states ts)"
  by (simp add: wf_ts_def list_all_iff)

lemma delta_tail:
  "(if vs = [] then Inr 0 else bind_r (py_max vs) (\<lambda>mx. Inr (max 0 mx)))
     = Inr (if set vs = {} then 0 else max 0 (Max (set vs)))"
  by (simp add: py_max_Max)

lemma get_delta_g_eq:
  assumes wf: "wf_ts ts" and keys: "set (states ts) \<subseteq> set (dict_keys r)"
  shows "get_delta_g g r e s ts = Inr (delta_g_spec g r e s ts)"
proof -
  let ?arcs = "filter (\<lambda>st. fst st = s) (get_state_transition_by_event e ts)"
  let ?G = "\<lambda>st. the (dict_get r (snd (snd st))) - the (dict_get r (fst st)) - g"
  have mem: "\<And>st. st \<in> set ?arcs \<Longrightarrow> st \<in> set (transitions ts)"
    by (simp add: get_state_transition_by_event_def)
  have step: "bind_r (dict_index r (snd (snd st)))
                (\<lambda>a. bind_r (dict_index r (fst st)) (\<lambda>b. Inr (a - b - g))) = Inr (?G st)"
    if "st \<in> set ?arcs" for st
  proof -
    have "fst st \<in> set (dict_keys r)" "snd (snd st) \<in> set (dict_keys r)"
      using wf_ts_arc [OF wf mem [OF that]] keys by auto
    then show ?thesis by (simp add: dict_index_mem)
  qed
  have m: "mapM_r (\<lambda>st. bind_r (dict_index r (snd (snd st)))
              (\<lambda>a. bind_r (dict_index r (fst st)) (\<lambda>b. Inr (a - b - g)))) ?arcs
           = Inr (map ?G ?arcs)"
    by (rule mapM_r_map) (rule step)
  have s: "set (map ?G ?arcs) =
             (\<lambda>st. the (dict_get r (snd (snd st))) - the (dict_get r s) - g) `
                {st \<in> set (transitions ts). fst st = s \<and> fst (snd st) = e}"
    by (auto simp: get_state_transition_by_event_def image_iff)
  show ?thesis
    unfolding get_delta_g_def m bind_r_Inr delta_tail s delta_g_spec_def Let_def by simp
qed

lemma get_delta_G_eq:
  assumes wf: "wf_ts ts" and keys: "set (states ts) \<subseteq> set (dict_keys r)"
  shows "get_delta_G g r e s ts = Inr (delta_G_spec g r e s ts)"
proof -
  let ?arcs = "filter (\<lambda>st. snd (snd st) = s) (get_state_transition_by_event e ts)"
  let ?G = "\<lambda>st. the (dict_get r (fst st)) - the (dict_get r (snd (snd st))) + g"
  have mem: "\<And>st. st \<in> set ?arcs \<Longrightarrow> st \<in> set (transitions ts)"
    by (simp add: get_state_transition_by_event_def)
  have step: "bind_r (dict_index r (fst st))
                (\<lambda>a. bind_r (dict_index r (snd (snd st))) (\<lambda>b. Inr (a - b + g))) = Inr (?G st)"
    if "st \<in> set ?arcs" for st
  proof -
    have "fst st \<in> set (dict_keys r)" "snd (snd st) \<in> set (dict_keys r)"
      using wf_ts_arc [OF wf mem [OF that]] keys by auto
    then show ?thesis by (simp add: dict_index_mem)
  qed
  have m: "mapM_r (\<lambda>st. bind_r (dict_index r (fst st))
              (\<lambda>a. bind_r (dict_index r (snd (snd st))) (\<lambda>b. Inr (a - b + g)))) ?arcs
           = Inr (map ?G ?arcs)"
    by (rule mapM_r_map) (rule step)
  have s: "set (map ?G ?arcs) =
             (\<lambda>st. the (dict_get r (fst st)) - the (dict_get r s) + g) `
                {st \<in> set (transitions ts). snd (snd st) = s \<and> fst (snd st) = e}"
    by (auto simp: get_state_transition_by_event_def image_iff)
  show ?thesis
    unfolding get_delta_G_def m bind_r_Inr delta_tail s delta_G_spec_def Let_def by simp
qed

lemma delta_g_spec_nonneg: "0 \<le> delta_g_spec g r e s ts"
  by (simp add: delta_g_spec_def Let_def)

lemma delta_G_spec_nonneg: "0 \<le> delta_G_spec g r e s ts"
  by (simp add: delta_G_spec_def Let_def)

lemma expansion_by_g_eq:
  assumes wf: "wf_ts ts" and keys: "set (dict_keys r) = set (states ts)"
  shows "get_multiset_expansion_on_event_by_g g e r ts =
           Inr (map (\<lambda>s. (s, the (dict_get r s) + delta_g_spec g r e s ts)) (dict_keys r))"
proof -
  have sub: "set (states ts) \<subseteq> set (dict_keys r)" using keys by simp
  have "mapM_r (\<lambda>key. bind_r (dict_index r key) (\<lambda>v.
                  bind_r (get_delta_g g r e key ts) (\<lambda>d. Inr (key, v + d)))) (dict_keys r)
        = Inr (map (\<lambda>s. (s, the (dict_get r s) + delta_g_spec g r e s ts)) (dict_keys r))"
    by (rule mapM_r_map) (simp add: dict_index_mem get_delta_g_eq [OF wf sub])
  then show ?thesis
    using keys by (simp add: get_multiset_expansion_on_event_by_g_def get_state_names_def)
qed

lemma expansion_by_G_eq:
  assumes wf: "wf_ts ts" and keys: "set (dict_keys r) = set (states ts)"
  shows "get_multiset_expansion_on_event_by_G g e r ts =
           Inr (map (\<lambda>s. (s, the (dict_get r s) + delta_G_spec g r e s ts)) (dict_keys r))"
proof -
  have sub: "set (states ts) \<subseteq> set (dict_keys r)" using keys by simp
  have "mapM_r (\<lambda>key. bind_r (dict_index r key) (\<lambda>v.
                  bind_r (get_delta_G g r e key ts) (\<lambda>d. Inr (key, v + d)))) (dict_keys r)
        = Inr (map (\<lambda>s. (s, the (dict_get r s) + delta_G_spec g r e s ts)) (dict_keys r))"
    by (rule mapM_r_map) (simp add: dict_index_mem get_delta_G_eq [OF wf sub])
  then show ?thesis
    using keys by (simp add: get_multiset_expansion_on_event_by_G_def get_state_names_def)
qed

text \<open>
  Claim C6: for a marking \<open>r\<close> whose domain is the set of states (of a system whose
  arcs join states of the system), an event \<open>e\<close> and an integer \<open>g\<close>, expansion-by-g
  returns the marking \<open>r1\<close> with \<open>r1(s) = r(s) + \<delta>_g(r,e,s,g)\<close>, expansion-by-G returns
  the marking \<open>r2\<close> with \<open>r2(s) = r(s) + \<delta>_G(r,e,s,g)\<close>, and both have the keys of \<open>r\<close>,
  hence the domain \<open>S\<close>.
\<close>

theorem expansion_formulas:
  assumes wf: "wf_ts ts" and keys: "set (dict_keys r) = set (states ts)"
  shows "\<exists>r1 r2.
      get_multiset_expansion_on_event_by_g g e r ts = Inr r1 \<and>
      get_multiset_expansion_on_event_by_G g e r ts = Inr r2 \<and>
      (\<forall>s\<in>set (states ts). dict_get r1 s = Some (the (dict_get r s) + delta_g_spec g r e s ts)) \<and>
      (\<forall>s\<in>set (states ts). dict_get r2 s = Some (the (dict_get r s) + delta_G_spec g r e s ts)) \<and>
      dict_keys r1 = dict_keys r \<and> dict_keys r2 = dict_keys r \<and>
      set (dict_keys r1) = set (states ts) \<and> set (dict_keys r2) = set (states ts)"
  using keys
  by (simp add: expansion_by_g_eq [OF wf keys] expansion_by_G_eq [OF wf keys] dict_get_graph)

theorem expansion_formulas_witness:
  "wf_ts sample_ts \<and>
   set (dict_keys [(''s_1'', 0::int), (''s_2'', 1), (''s_3'', 0), (''s_4'', 0)]) = set (states sample_ts) \<and>
   (\<exists>r1 r2.
      get_multiset_expansion_on_event_by_g (- 1) ''c''
        [(''s_1'', 0), (''s_2'', 1), (''s_3'', 0), (''s_4'', 0)] sample_ts = Inr r1 \<and>
      get_multiset_expansion_on_event_by_G (- 1) ''c''
        [(''s_1'', 0), (''s_2'', 1), (''s_3'', 0), (''s_4'', 0)] sample_ts = Inr r2 \<and>
      dict_keys r1 = [''s_1'', ''s_2'', ''s_3'', ''s_4''] \<and>
      dict_keys r2 = [''s_1'', ''s_2'', ''s_3'', ''s_4''])"
proof -
  have h1: "wf_ts sample_ts" by (simp add: wf_ts_def sample_ts_def)
  have h2: "set (dict_keys [(''s_1'', 0::int), (''s_2'', 1), (''s_3'', 0), (''s_4'', 0)])
              = set (states sample_ts)"
    by (simp add: dict_keys_def sample_ts_def)
  have h3: "dict_keys [(''s_1'', 0::int), (''s_2'', 1), (''s_3'', 0), (''s_4'', 0)]
              = [''s_1'', ''s_2'', ''s_3'', ''s_4'']"
    by (simp add: dict_keys_def)
  show ?thesis
    using h1 h2 expansion_formulas [OF h1 h2, of "- 1" "''c''"] unfolding h3 by blast
qed

text \<open>
  Claim C10: under the same conditions both expansions return a marking, and no
  multiplicity of it is smaller than in \<open>r\<close>.
\<close>

theorem expansion_never_decreases:
  assumes wf: "wf_ts ts" and keys: "set (dict_keys r) = set (states ts)"
  shows "\<exists>r1 r2.
      get_multiset_expansion_on_event_by_g g e r ts = Inr r1 \<and>
      get_multiset_expansion_on_event_by_G g e r ts = Inr r2 \<and>
      (\<forall>s\<in>set (states ts). \<exists>v v1 v2. dict_get r s = Some v \<and> dict_get r1 s = Some v1 \<and>
           dict_get r2 s = Some v2 \<and> v \<le> v1 \<and> v \<le> v2)"
proof -
  have "\<And>s. s \<in> set (states ts) \<Longrightarrow> \<exists>v. dict_get r s = Some v"
    using keys dict_get_mem by metis
  then show ?thesis
    using keys delta_g_spec_nonneg [of g r e _ ts] delta_G_spec_nonneg [of g r e _ ts]
    by (fastforce simp add: expansion_by_g_eq [OF wf keys] expansion_by_G_eq [OF wf keys]
        dict_get_graph)
qed

theorem expansion_never_decreases_witness:
  "wf_ts self_loop_ts \<and>
   set (dict_keys [(''s1'', 2::int)]) = set (states self_loop_ts) \<and>
   (\<exists>r1 r2.
      get_multiset_expansion_on_event_by_g 1 ''a'' [(''s1'', 2)] self_loop_ts = Inr r1 \<and>
      get_multiset_expansion_on_event_by_G 1 ''a'' [(''s1'', 2)] self_loop_ts = Inr r2 \<and>
      (\<exists>v v1 v2. dict_get [(''s1'', 2)] ''s1'' = Some v \<and> dict_get r1 ''s1'' = Some v1 \<and>
           dict_get r2 ''s1'' = Some v2 \<and> v \<le> v1 \<and> v \<le> v2))"
proof -
  have h1: "wf_ts self_loop_ts" by (simp add: wf_ts_def self_loop_ts_def)
  have h2: "set (dict_keys [(''s1'', 2::int)]) = set (states self_loop_ts)"
    by (simp add: dict_keys_def self_loop_ts_def)
  have h3: "''s1'' \<in> set (states self_loop_ts)" by (simp add: self_loop_ts_def)
  show ?thesis
    using h1 h2 h3 expansion_never_decreases [OF h1 h2, of 1 "''a''"] by blast
qed

section \<open>Dictionaries built in a loop\<close>

lemma set_update_subset: "set (AList.update k v d) \<subseteq> insert (k, v) (set d)"
  by (induction d) auto

lemma update_graph:
  "(\<forall>p\<in>set d. snd p = F (fst p)) \<Longrightarrow> set (AList.update k (F k) d) = insert (k, F k) (set d)"
  by (induction d) auto

lemma fold_dict_set_graph:
  "(\<forall>p\<in>set d. snd p = F (fst p)) \<Longrightarrow>
     set (fold (\<lambda>k d. dict_set d k (F k)) ks d) = set d \<union> (\<lambda>k. (k, F k)) ` set ks"
proof (induction ks arbitrary: d)
  case Nil
  then show ?case by simp
next
  case (Cons k ks)
  have s: "set (dict_set d k (F k)) = insert (k, F k) (set d)"
    using Cons.prems by (simp add: dict_set_def update_graph)
  have "\<forall>p\<in>set (dict_set d k (F k)). snd p = F (fst p)"
    using Cons.prems s by auto
  from Cons.IH [OF this] s show ?case by auto
qed

lemma dict_values_fold_dict_set:
  "set (dict_values (fold (\<lambda>k d. dict_set d k (F k)) ks [])) = F ` set ks"
  using fold_dict_set_graph [of "[]" F ks] by (force simp: dict_values_def)

lemma get_candidates_cases:
  assumes "c \<in> set (get_candidates ts)"
  shows "\<exists>e\<in>set (events ts). c = get_excitation_set_by_event e ts \<or> c = get_switching_set_by_event e ts"
  using assms
  by (auto simp: get_candidates_def get_excitation_sets_def get_switching_sets_def
      dict_values_fold_dict_set get_event_names_def)

lemma mapM_r_pairs:
  assumes "mapM_r (\<lambda>e. bind_r (f e) (\<lambda>g. Inr (e, g))) es = Inr ps"
  shows "ps = map (\<lambda>e. (e, projr (f e))) es \<and> (\<forall>e\<in>set es. \<exists>g. f e = Inr g)"
  using assms
proof (induction es arbitrary: ps)
  case Nil
  then show ?case by simp
next
  case (Cons e es)
  let ?F = "\<lambda>e. bind_r (f e) (\<lambda>g. Inr (e, g))"
  from Cons.prems obtain y ys where y: "?F e = Inr y" and ys: "mapM_r ?F es = Inr ys"
    and ps: "ps = y # ys"
    by (auto split: sum.splits)
  from y obtain g where g: "f e = Inr g" and yg: "y = (e, g)"
    by (cases "f e") auto
  from Cons.IH [OF ys] ps g yg show ?case by simp
qed

lemma fold_pairs:
  "fold (\<lambda>p d. dict_set d (fst p) (snd p)) (map (\<lambda>e. (e, F e)) es) d = fold (\<lambda>k d. dict_set d k (F k)) es d"
  by (simp add: fold_map comp_def)

lemma get_gradients_Inr:
  assumes "get_gradients_for_multisets m ts = Inr gs"
  shows "set gs = (\<lambda>e. (e, projr (get_gradient_of_event e m ts))) ` set (events ts)"
    and "\<forall>e\<in>set (events ts). \<exists>g. get_gradient_of_event e m ts = Inr g"
proof -
  from assms obtain ps where
    ps: "mapM_r (\<lambda>e. bind_r (get_gradient_of_event e m ts) (\<lambda>grad. Inr (e, grad))) (events ts) = Inr ps"
    and gs: "gs = fold (\<lambda>p d. dict_set d (fst p) (snd p)) ps []"
    by (auto simp: get_gradients_for_multisets_def bind_r_eq_Inr get_event_names_def)
  note m = mapM_r_pairs [OF ps]
  show "set gs = (\<lambda>e. (e, projr (get_gradient_of_event e m ts))) ` set (events ts)"
    using fold_dict_set_graph [of "[]" "\<lambda>e. projr (get_gradient_of_event e m ts)" "events ts"]
    unfolding gs by (simp add: m fold_pairs)
  show "\<forall>e\<in>set (events ts). \<exists>g. get_gradient_of_event e m ts = Inr g"
    using m by simp
qed

lemma get_gradients_total:
  assumes "\<forall>e\<in>set (events ts). \<exists>g. get_gradient_of_event e m ts = Inr g"
  shows "\<exists>gs. get_gradients_for_multisets m ts = Inr gs"
proof -
  have "mapM_r (\<lambda>e. bind_r (get_gradient_of_event e m ts) (\<lambda>grad. Inr (e, grad))) (events ts)
     = Inr (map (\<lambda>e. (e, projr (get_gradient_of_event e m ts))) (events ts))"
    by (rule mapM_r_map) (use assms in auto)
  then show ?thesis by (simp add: get_gradients_for_multisets_def get_event_names_def)
qed

lemma get_gradients_values:
  assumes "get_gradients_for_multisets m ts = Inr gs"
  shows "set (dict_values gs) = (\<lambda>e. projr (get_gradient_of_event e m ts)) ` set (events ts)"
proof -
  have "set (dict_values gs) = snd ` set gs" by (simp add: dict_values_def)
  also have "\<dots> = snd ` (\<lambda>e. (e, projr (get_gradient_of_event e m ts))) ` set (events ts)"
    by (simp only: get_gradients_Inr(1) [OF assms])
  also have "\<dots> = (\<lambda>e. projr (get_gradient_of_event e m ts)) ` set (events ts)"
    by (simp only: image_image snd_conv)
  finally show ?thesis .
qed

lemma is_region_Inr:
  "is_region m ts = Inr b \<longleftrightarrow>
     (\<forall>e\<in>set (events ts). \<exists>g. get_gradient_of_event e m ts = Inr g) \<and>
     b = (\<forall>e\<in>set (events ts). len_set (projr (get_gradient_of_event e m ts)) = 1)"
  (is "?L \<longleftrightarrow> ?T \<and> ?B")
proof
  assume a: ?L
  then obtain gs where gs: "get_gradients_for_multisets m ts = Inr gs"
    and b: "b = list_all (\<lambda>g. len_set g = 1) (dict_values gs)"
    unfolding is_region_def bind_r_eq_Inr by blast
  have "list_all (\<lambda>g. len_set g = 1) (dict_values gs)
      = (\<forall>e\<in>set (events ts). len_set (projr (get_gradient_of_event e m ts)) = 1)"
    unfolding list_all_iff get_gradients_values [OF gs] by blast
  with b have ?B by blast
  with get_gradients_Inr(2) [OF gs] show "?T \<and> ?B" by blast
next
  assume a: "?T \<and> ?B"
  then obtain gs where gs: "get_gradients_for_multisets m ts = Inr gs"
    using get_gradients_total by blast
  have "list_all (\<lambda>g. len_set g = 1) (dict_values gs)
      = (\<forall>e\<in>set (events ts). len_set (projr (get_gradient_of_event e m ts)) = 1)"
    unfolding list_all_iff get_gradients_values [OF gs] by blast
  with a have "b = list_all (\<lambda>g. len_set g = 1) (dict_values gs)" by blast
  then show ?L by (simp add: is_region_def gs)
qed


text \<open>
  Claim C3 at the system \<open>arcless_event_ts\<close>, whose event \<open>a\<close> has no transition: the
  gradient list of \<open>a\<close> is empty, \<^verbatim>\<open>len(set([]))\<close> is 0 and not 1, and \<^verbatim>\<open>is_region\<close>
  returns \<^verbatim>\<open>False\<close> for the marking \<open>{s1: 0}\<close>.
\<close>

theorem is_region_arcless_event:
  "is_region [(''s1'', 0)] arcless_event_ts = Inr False"
  by code_simp

text \<open>
  Claim C7 at the same system: \<^verbatim>\<open>get_illegal_events\<close> takes the event without
  transitions for an illegal one and raises \<^verbatim>\<open>ValueError\<close> at \<^verbatim>\<open>min([])\<close>.
\<close>

theorem get_illegal_events_arcless_event:
  "get_illegal_events [(''s1'', 0)] arcless_event_ts = Inl ValueError"
  by code_simp

section \<open>Invariants of the search loops\<close>

lemma set_list_pop: "set (list_pop l idx) \<subseteq> set l"
  unfolding list_pop_def by (auto dest: in_set_takeD in_set_dropD)

lemma ball_list_pop: "\<forall>m\<in>set l. Q m \<Longrightarrow> \<forall>m\<in>set (list_pop l idx). Q m"
  using set_list_pop [of l idx] by auto

lemma length_list_pop_eq: "idx < length l \<Longrightarrow> Suc (length (list_pop l idx)) = length l"
  by (simp add: list_pop_def)

lemma expansion_children_inv:
  assumes "expansion_children k ts cs r disc expl = Inr (r', disc', expl')"
    and "\<forall>i\<in>set cs. Q i" and "\<forall>m\<in>set r. Q m" and "\<forall>m\<in>set disc. P m"
    and B: "\<And>i. Q i \<Longrightarrow> is_valid_candidate k i = Inr True \<Longrightarrow> is_region i ts = Inr True \<Longrightarrow> P i"
  shows "(\<forall>m\<in>set r'. Q m) \<and> (\<forall>m\<in>set disc'. P m)"
  using assms(1-4)
proof (induction cs arbitrary: r disc expl)
  case Nil
  then show ?case by simp
next
  case (Cons i cs)
  have Qi: "Q i" and Qcs: "\<forall>i\<in>set cs. Q i" using Cons.prems(2) by simp_all
  show ?case
  proof (cases "Values (dict_values i) \<in> set expl")
    case True
    with Cons.prems(1) have "expansion_children k ts cs r disc expl = Inr (r', disc', expl')"
      by simp
    from Cons.IH [OF this Qcs Cons.prems(3) Cons.prems(4)] show ?thesis .
  next
    case False
    note nex = this
    show ?thesis
    proof (cases "is_valid_candidate k i")
      case (Inl e)
      with Cons.prems(1) nex show ?thesis by simp
    next
      case (Inr v)
      note valid = this
      show ?thesis
      proof (cases v)
        case False
        with Cons.prems(1) nex valid
        have "expansion_children k ts cs r disc (expl @ [Values (dict_values i)])
                = Inr (r', disc', expl')"
          by simp
        from Cons.IH [OF this Qcs Cons.prems(3) Cons.prems(4)] show ?thesis .
      next
        case True
        note vt = this
        show ?thesis
        proof (cases "is_region i ts")
          case (Inl e)
          with Cons.prems(1) nex valid vt show ?thesis by simp
        next
          case (Inr b)
          show ?thesis
          proof (cases b)
            case True
            with Cons.prems(1) nex valid vt Inr
            have c: "expansion_children k ts cs r (disc @ [i]) (expl @ [Values (dict_values i)])
                    = Inr (r', disc', expl')" by simp
            have "P i" by (rule B [OF Qi]) (simp_all add: valid vt Inr True)
            with Cons.prems(4) have "\<forall>m\<in>set (disc @ [i]). P m" by simp
            from Cons.IH [OF c Qcs Cons.prems(3) this] show ?thesis .
          next
            case False
            with Cons.prems(1) nex valid vt Inr
            have c: "expansion_children k ts cs (r @ [i]) disc expl = Inr (r', disc', expl')" by simp
            have "\<forall>m\<in>set (r @ [i]). Q m" using Cons.prems(3) Qi by simp
            from Cons.IH [OF c Qcs this Cons.prems(4)] show ?thesis .
          qed
        qed
      qed
    qed
  qed
qed

lemma expansion_loop_Suc_elim:
  assumes run: "expansion_loop (Suc fuel) k ts r disc expl n = Some (Inr res)"
  obtains (finished) "r = []" "res = (disc, expl, n)"
  | (skip) idx where "r \<noteq> []"
      "index_max (\<lambda>i. sum_list (dict_values (r ! i))) (length r) = Inr idx"
      "Values (dict_values (r ! idx)) \<in> set expl"
      "expansion_loop fuel k ts (list_pop r idx) disc expl (n + 1) = Some (Inr res)"
  | (expand) idx lst ev gmin gmax ge r1 r2 r'' disc'' expl'' where "r \<noteq> []"
      "index_max (\<lambda>i. sum_list (dict_values (r ! i))) (length r) = Inr idx"
      "Values (dict_values (r ! idx)) \<notin> set expl"
      "get_illegal_events (r ! idx) ts = Inr lst"
      "get_event_gradient_for_expansion lst = Inr (ev, gmin, gmax, ge)"
      "get_multiset_expansion_on_event_by_g ge ev (r ! idx) ts = Inr r1"
      "get_multiset_expansion_on_event_by_G (ge + 1) ev (r ! idx) ts = Inr r2"
      "expansion_children k ts [r1, r2] (list_pop r idx) disc
         (expl @ [Values (dict_values (r ! idx))]) = Inr (r'', disc'', expl'')"
      "expansion_loop fuel k ts r'' disc'' expl'' (n + 1) = Some (Inr res)"
proof (cases "r = []")
  case True
  with run have "res = (disc, expl, n)" by simp
  with True show thesis by (rule finished)
next
  case False
  note ne = this
  show thesis
  proof (cases "index_max (\<lambda>i. sum_list (dict_values (r ! i))) (length r)")
    case (Inl e)
    with run ne show thesis by simp
  next
    case (Inr idx)
    note idx = this
    show thesis
    proof (cases "Values (dict_values (r ! idx)) \<in> set expl")
      case True
      with run ne idx
      have "expansion_loop fuel k ts (list_pop r idx) disc expl (n + 1) = Some (Inr res)"
        by (simp add: Let_def)
      with ne idx True show thesis by (rule skip)
    next
      case False
      note nex = this
      from run ne idx nex
      have body: "(case get_illegal_events (r ! idx) ts of
                 Inl e \<Rightarrow> Some (Inl e)
               | Inr lst_non_constant_events \<Rightarrow>
              (case get_event_gradient_for_expansion lst_non_constant_events of
                 Inl e \<Rightarrow> Some (Inl e)
               | Inr (event_name, g_min, g_max, g_e) \<Rightarrow>
              (case get_multiset_expansion_on_event_by_g g_e event_name (r ! idx) ts of
                 Inl e \<Rightarrow> Some (Inl e)
               | Inr r_1 \<Rightarrow>
              (case get_multiset_expansion_on_event_by_G (g_e + 1) event_name (r ! idx) ts of
                 Inl e \<Rightarrow> Some (Inl e)
               | Inr r_2 \<Rightarrow>
              (case expansion_children k ts [r_1, r_2] (list_pop r idx) disc
                      (expl @ [Values (dict_values (r ! idx))]) of
                 Inl e \<Rightarrow> Some (Inl e)
               | Inr (r'', discovered', explored') \<Rightarrow>
                   expansion_loop fuel k ts r'' discovered' explored' (n + 1)))))) = Some (Inr res)"
        by (simp add: Let_def del: expansion_children.simps)
      from body obtain lst where lst: "get_illegal_events (r ! idx) ts = Inr lst"
        by (cases "get_illegal_events (r ! idx) ts") simp_all
      note body = body [unfolded lst sum.case]
      from body obtain t where t: "get_event_gradient_for_expansion lst = Inr t"
        by (cases "get_event_gradient_for_expansion lst") simp_all
      obtain ev gmin gmax ge where tt: "t = (ev, gmin, gmax, ge)" by (cases t) auto
      note body = body [unfolded t tt sum.case prod.case]
      from body obtain r1 where r1: "get_multiset_expansion_on_event_by_g ge ev (r ! idx) ts = Inr r1"
        by (cases "get_multiset_expansion_on_event_by_g ge ev (r ! idx) ts") simp_all
      note body = body [unfolded r1 sum.case]
      from body obtain r2 where r2: "get_multiset_expansion_on_event_by_G (ge + 1) ev (r ! idx) ts = Inr r2"
        by (cases "get_multiset_expansion_on_event_by_G (ge + 1) ev (r ! idx) ts") simp_all
      note body = body [unfolded r2 sum.case]
      from body obtain c where c: "expansion_children k ts [r1, r2] (list_pop r idx) disc
                      (expl @ [Values (dict_values (r ! idx))]) = Inr c"
        by (cases "expansion_children k ts [r1, r2] (list_pop r idx) disc
                      (expl @ [Values (dict_values (r ! idx))])") simp_all
      obtain r'' disc'' expl'' where cc: "c = (r'', disc'', expl'')" by (cases c) auto
      note body = body [unfolded c cc sum.case prod.case]
      show thesis
        by (rule expand [OF ne idx nex lst t [unfolded tt] r1 r2 c [unfolded cc] body])
    qed
  qed
qed

lemma expansion_loop_inv:
  assumes "expansion_loop fuel k ts r disc expl n = Some (Inr (disc', expl', n'))"
    and "\<forall>m\<in>set r. Q m" and "\<forall>m\<in>set disc. P m"
    and A: "\<And>m e g r1. Q m \<Longrightarrow> get_multiset_expansion_on_event_by_g g e m ts = Inr r1 \<Longrightarrow> Q r1"
    and A': "\<And>m e g r2. Q m \<Longrightarrow> get_multiset_expansion_on_event_by_G g e m ts = Inr r2 \<Longrightarrow> Q r2"
    and B: "\<And>i. Q i \<Longrightarrow> is_valid_candidate k i = Inr True \<Longrightarrow> is_region i ts = Inr True \<Longrightarrow> P i"
  shows "\<forall>m\<in>set disc'. P m"
  using assms(1-3)
proof (induction fuel arbitrary: r disc expl n)
  case 0
  then show ?case by simp
next
  case (Suc fuel)
  from Suc.prems(1) show ?case
  proof (cases rule: expansion_loop_Suc_elim)
    case finished
    from finished(2) have "disc' = disc" by (simp only: prod.inject)
    with Suc.prems(3) show ?thesis by (simp only:)
  next
    case (skip idx)
    have "\<forall>m\<in>set (list_pop r idx). Q m" using Suc.prems(2) by (rule ball_list_pop)
    from Suc.IH [OF skip(4) this Suc.prems(3)] show ?thesis .
  next
    case (expand idx lst ev gmin gmax ge r1 r2 r'' disc'' expl'')
    have lt: "idx < length r" using expand(2) by (rule index_max_less)
    then have Qh: "Q (r ! idx)" using Suc.prems(2) by simp
    have Q1: "Q r1" using A [OF Qh expand(6)] .
    have Q2: "Q r2" using A' [OF Qh expand(7)] .
    have Q12: "\<forall>i\<in>set [r1, r2]. Q i" using Q1 Q2 by simp
    have Qp: "\<forall>m\<in>set (list_pop r idx). Q m" using Suc.prems(2) by (rule ball_list_pop)
    have inv: "(\<forall>m\<in>set r''. Q m) \<and> (\<forall>m\<in>set disc''. P m)"
      by (rule expansion_children_inv [OF expand(8) Q12 Qp Suc.prems(3) B])
    from Suc.IH [OF expand(9) conjunct1 [OF inv] conjunct2 [OF inv]] show ?thesis .
  qed
qed

lemma region_search_inv:
  assumes "region_search fuel k ts cands disc expl n = Some (Inr (disc', expl', n'))"
    and "\<forall>c\<in>set cands. S c" and "\<forall>m\<in>set disc. P m"
    and "\<And>c. S c \<Longrightarrow> Q c"
    and "\<And>c. S c \<Longrightarrow> is_region c ts = Inr True \<Longrightarrow> P c"
    and "\<And>m e g r1. Q m \<Longrightarrow> get_multiset_expansion_on_event_by_g g e m ts = Inr r1 \<Longrightarrow> Q r1"
    and "\<And>m e g r2. Q m \<Longrightarrow> get_multiset_expansion_on_event_by_G g e m ts = Inr r2 \<Longrightarrow> Q r2"
    and "\<And>i. Q i \<Longrightarrow> is_valid_candidate k i = Inr True \<Longrightarrow> is_region i ts = Inr True \<Longrightarrow> P i"
  shows "\<forall>m\<in>set disc'. P m"
  using assms
proof (induction fuel k ts cands disc expl n rule: region_search.induct)
  case (1 fuel k ts candidates discovered explored iterations)
  note res = "1.prems"(1) and Sc = "1.prems"(2) and Pd = "1.prems"(3)
    and SQ = "1.prems"(4) and SP = "1.prems"(5) and A = "1.prems"(6) and A' = "1.prems"(7)
    and B = "1.prems"(8)
  show ?case
  proof (cases "candidates = []")
    case True
    with res have "disc' = discovered" by (simp add: region_search.simps)
    with Pd show ?thesis by (simp only:)
  next
    case False
    note ne = this
    show ?thesis
    proof (cases "index_min (\<lambda>i. sum_list (dict_values (candidates ! i))) (length candidates)")
      case (Inl e)
      with res ne show ?thesis by (simp add: region_search.simps)
    next
      case (Inr idx)
      note idx = this
      have lt: "idx < length candidates" using idx by (rule index_min_less)
      then have St: "S (candidates ! idx)" using Sc by simp
      have Sp: "\<forall>c\<in>set (list_pop candidates idx). S c" using Sc by (rule ball_list_pop)
      show ?thesis
      proof (cases "is_region (candidates ! idx) ts")
        case (Inl e)
        with res ne idx show ?thesis by (simp add: region_search.simps)
      next
        case (Inr b)
        note reg = this
        show ?thesis
        proof (cases b)
          case True
          then have bt: "b = True" by simp
          have "is_region (candidates ! idx) ts = Inr True" using reg bt by simp
          then have Pt: "P (candidates ! idx)" by (rule SP [OF St])
          show ?thesis
          proof (cases "list_ex (dict_eq (candidates ! idx)) discovered")
            case True
            with res ne idx reg bt
            have r: "region_search fuel k ts (list_pop candidates idx) discovered explored
                       (iterations + 1) = Some (Inr (disc', expl', n'))"
              by (subst (asm) region_search.simps) simp
            have nn: "\<not> \<not> list_ex (dict_eq (candidates ! idx)) discovered" using True by simp
            show ?thesis
              by (rule "1.IH"(2) [OF ne idx reg bt nn r Sp Pd SQ SP A A' B])
          next
            case False
            with res ne idx reg bt
            have r: "region_search fuel k ts (list_pop candidates idx)
                       (discovered @ [candidates ! idx]) (explored @ [Dict (candidates ! idx)])
                       (iterations + 1) = Some (Inr (disc', expl', n'))"
              by (subst (asm) region_search.simps) simp
            have Pd': "\<forall>m\<in>set (discovered @ [candidates ! idx]). P m" using Pd Pt by simp
            show ?thesis
              by (rule "1.IH"(1) [OF ne idx reg bt False r Sp Pd' SQ SP A A' B])
          qed
        next
          case False
          then have bf: "b = False" by simp
          from res ne idx reg bf
          have body: "(case multiset_expansion fuel k (candidates ! idx) iterations ts
                         discovered explored of
                    None \<Rightarrow> None
                  | Some (Inl e) \<Rightarrow> Some (Inl e)
                  | Some (Inr (discovered', explored', niter)) \<Rightarrow>
                      region_search fuel k ts (list_pop candidates idx)
                        discovered' explored' niter) = Some (Inr (disc', expl', n'))"
            by (subst (asm) region_search.simps) simp
          from body obtain y where y: "multiset_expansion fuel k (candidates ! idx) iterations ts
                         discovered explored = Some y"
            by (cases "multiset_expansion fuel k (candidates ! idx) iterations ts
                         discovered explored") simp_all
          note body = body [unfolded y option.case]
          from body obtain z where z: "y = Inr z" by (cases y) simp_all
          obtain d x ni where zz: "z = (d, x, ni)" by (cases z) auto
          note body = body [unfolded z zz sum.case prod.case]
          note ex = y [unfolded z zz]
          have Qt: "\<forall>m\<in>set [candidates ! idx]. Q m" using SQ [OF St] by simp
          have Pd': "\<forall>m\<in>set d. P m"
            by (rule expansion_loop_inv [OF ex [unfolded multiset_expansion_def] Qt Pd A A' B])
          show ?thesis
            by (rule "1.IH"(3) [OF ne idx reg bf ex refl refl refl body Sp Pd' SQ SP A A' B])
        qed
      qed
    qed
  qed
qed

lemma those_map_Some: "those xs = Some ys \<Longrightarrow> xs = map Some ys"
proof (induction xs arbitrary: ys)
  case Nil
  then show ?case by simp
next
  case (Cons x xs)
  then show ?case by (auto split: option.splits)
qed

lemma set_remove_duplicates_loop: "set (remove_duplicates_loop l seen) \<subseteq> set l"
  by (induction l seen rule: remove_duplicates_loop.induct) auto

lemma set_remove_duplicates: "set (remove_duplicates l) \<subseteq> set l"
  by (simp add: remove_duplicates_def set_remove_duplicates_loop)

lemma set_remove_supersets: "set (remove_supersets l) \<subseteq> set l"
  by (simp add: remove_supersets_def)

lemma v1_elim:
  assumes "generate_all_minimal_regions_v1 fuel k ts = Some (Inr (regions, explored, iterations))"
  obtains candidates discovered it0 where
    "get_candidates ts = map Some candidates"
    "region_search fuel k ts (remove_supersets (remove_duplicates candidates)) [] [] 0
       = Some (Inr (discovered, explored, it0))"
    "regions = remove_duplicates (remove_supersets discovered)"
    "iterations = it0 + length discovered"
proof -
  from assms obtain candidates where c: "those (get_candidates ts) = Some candidates"
    by (cases "those (get_candidates ts)") (simp_all add: generate_all_minimal_regions_v1_def)
  from assms have body: "(case region_search fuel k ts (remove_supersets (remove_duplicates candidates)) [] [] 0 of
             None \<Rightarrow> None
           | Some (Inl e) \<Rightarrow> Some (Inl e)
           | Some (Inr (discovered, explored, iterations)) \<Rightarrow>
               Some (Inr (remove_duplicates (remove_supersets discovered), explored,
                          iterations + length discovered))) = Some (Inr (regions, explored, iterations))"
    by (simp add: generate_all_minimal_regions_v1_def c)
  from body obtain y where y: "region_search fuel k ts (remove_supersets (remove_duplicates candidates)) [] [] 0 = Some y"
    by (cases "region_search fuel k ts (remove_supersets (remove_duplicates candidates)) [] [] 0") simp_all
  note body = body [unfolded y option.case]
  from body obtain z where z: "y = Inr z" by (cases y) simp_all
  obtain d x ni where zz: "z = (d, x, ni)" by (cases z) auto
  note body = body [unfolded z zz sum.case prod.case]
  from body have e: "regions = remove_duplicates (remove_supersets d)" "explored = x"
    "iterations = ni + length d" by simp_all
  show thesis
    by (rule that [OF those_map_Some [OF c] y [unfolded z zz e(2) [symmetric]] e(1) e(3)])
qed

section \<open>Seeds\<close>

lemma values_dict_set: "set (dict_values (dict_set d k v)) \<subseteq> insert v (set (dict_values d))"
  using set_update_subset [of k v d] by (auto simp: dict_values_def dict_set_def)

lemma fold_values:
  assumes "\<forall>v\<in>set (dict_values d). P v"
    and "\<And>x d. \<forall>v\<in>set (dict_values d). P v \<Longrightarrow> \<forall>v\<in>set (dict_values (f x d)). P v"
  shows "\<forall>v\<in>set (dict_values (fold f xs d)). P v"
  using assms(1)
proof (induction xs arbitrary: d)
  case Nil
  then show ?case by simp
next
  case (Cons x xs)
  from Cons.IH [OF assms(2) [OF Cons.prems]] show ?case by simp
qed

lemma dict_values_sort: "set (dict_values (sort d)) = set (dict_values d)"
  by (simp add: dict_values_def)

lemma indicator_fold:
  "\<forall>v\<in>set (dict_values
      (fold (\<lambda>st d. if c st then dict_set d (key st) 1 else d) sts
         (fold (\<lambda>k d. dict_set d k 0) ks []))). v = 0 \<or> v = (1::int)"
proof (rule fold_values)
  show "\<forall>v\<in>set (dict_values (fold (\<lambda>k d. dict_set d k 0) ks [])). v = 0 \<or> v = (1::int)"
  proof (rule fold_values)
    show "\<forall>v\<in>set (dict_values []). v = 0 \<or> v = (1::int)" by (simp add: dict_values_def)
  next
    fix x and d :: "('a \<times> int) list"
    assume "\<forall>v\<in>set (dict_values d). v = 0 \<or> v = 1"
    then show "\<forall>v\<in>set (dict_values (dict_set d x 0)). v = 0 \<or> v = 1"
      using values_dict_set [of d x 0] by auto
  qed
next
  fix x and d :: "('a \<times> int) list"
  assume "\<forall>v\<in>set (dict_values d). v = 0 \<or> v = 1"
  then show "\<forall>v\<in>set (dict_values (if c x then dict_set d (key x) 1 else d)). v = 0 \<or> v = 1"
    using values_dict_set [of d "key x" 1] by auto
qed

lemma seed_values:
  assumes "Some m \<in> set (get_candidates ts)"
  shows "\<forall>v\<in>set (dict_values m). v = 0 \<or> v = 1"
proof -
  from get_candidates_cases [OF assms] obtain e where e: "e \<in> set (events ts)"
    and c: "Some m = get_excitation_set_by_event e ts \<or> Some m = get_switching_set_by_event e ts"
    by blast
  from c show ?thesis
  proof
    assume "Some m = get_excitation_set_by_event e ts"
    then have "m = sort (fold (\<lambda>st d. if fst (snd st) = e then dict_set d (fst st) 1 else d)
             (get_all_state_transitions ts) (fold (\<lambda>k d. dict_set d k 0) (get_state_names ts) []))"
      by (simp add: get_excitation_set_by_event_def split: if_splits)
    then show ?thesis
      using indicator_fold [where c = "\<lambda>st. fst (snd st) = e" and key = fst
          and sts = "get_all_state_transitions ts" and ks = "get_state_names ts"]
      by (simp only: dict_values_sort)
  next
    assume "Some m = get_switching_set_by_event e ts"
    then have "m = sort (fold (\<lambda>st d. if fst (snd st) = e then dict_set d (snd (snd st)) 1 else d)
             (get_all_state_transitions ts) (fold (\<lambda>k d. dict_set d k 0) (get_state_names ts) []))"
      by (simp add: get_switching_set_by_event_def split: if_splits)
    then show ?thesis
      using indicator_fold [where c = "\<lambda>st. fst (snd st) = e" and key = "\<lambda>st. snd (snd st)"
          and sts = "get_all_state_transitions ts" and ks = "get_state_names ts"]
      by (simp only: dict_values_sort)
  qed
qed

lemma seed_event:
  "Some m \<in> set (get_candidates ts) \<Longrightarrow> events ts \<noteq> []"
  using get_candidates_cases by fastforce

lemma region_nonempty:
  assumes reg: "is_region m ts = Inr True" and ev: "events ts \<noteq> []"
  shows "m \<noteq> []"
proof -
  from ev obtain e where e: "e \<in> set (events ts)" by (cases "events ts") auto
  from reg [unfolded is_region_Inr] e obtain g where g: "get_gradient_of_event e m ts = Inr g"
    and l: "len_set (projr (get_gradient_of_event e m ts)) = 1" by blast
  from l g have gne: "g \<noteq> []" by (auto simp: len_set_def)
  let ?arcs = "filter (\<lambda>st. fst (snd st) = e) (get_all_state_transitions ts)"
  from g have la: "list_all2 (\<lambda>x y. gradient_of_arc m x = Inr y) ?arcs g"
    by (simp add: get_gradient_of_event_def mapM_r_Inr)
  with gne obtain st rest y ys where "?arcs = st # rest" "g = y # ys" "gradient_of_arc m st = Inr y"
    by (cases ?arcs; cases g) auto
  then have "dict_get m (snd (snd st)) \<noteq> None"
    by (auto simp: gradient_of_arc_def split: option.splits)
  then show ?thesis by (auto simp: dict_get_def)
qed

lemma seed_power:
  assumes k: "0 < k" and seed: "Some m \<in> set (get_candidates ts)"
    and reg: "is_region m ts = Inr True"
  shows "\<exists>p. get_power_of_multiset m = Inr p \<and> p \<le> k"
proof -
  have ne: "m \<noteq> []" using region_nonempty [OF reg seed_event [OF seed]] .
  then have v: "dict_values m \<noteq> []" by (simp add: dict_values_def)
  have p: "get_power_of_multiset m = Inr (Max (set (dict_values m)))"
    using v by (simp add: get_power_of_multiset_def py_max_Max)
  have "Max (set (dict_values m)) \<in> set (dict_values m)" using v by (intro Max_in) simp_all
  with seed_values [OF seed] have "Max (set (dict_values m)) \<le> 1" by auto
  with k p show ?thesis by simp
qed

lemma is_valid_candidate_True:
  "is_valid_candidate k i = Inr True \<Longrightarrow>
     (\<exists>p. get_power_of_multiset i = Inr p \<and> p \<le> k) \<and> \<not> is_trivial i"
  by (auto simp: is_valid_candidate_def bind_r_eq_Inr)


section \<open>The returned regions are regions within the bound\<close>

text \<open>
  Claim C1, as the code has it: for \<open>k > 0\<close>, every marking in the list of regions
  returned by \<^verbatim>\<open>generate_all_minimal_regions_v1\<close> satisfies \<^verbatim>\<open>is_region\<close> and has
  power at most \<open>k\<close>; it is not trivial unless it is one of the seeds (an excitation or
  switching set): the outer loop appends a seed that is a region without the validity
  test that \<^verbatim>\<open>multiset_expansion\<close> applies to the markings it constructs.
\<close>

theorem returned_regions_valid:
  assumes k: "0 < k"
    and run: "generate_all_minimal_regions_v1 fuel k ts = Some (Inr (regions, explored, iterations))"
    and m: "m \<in> set regions"
  shows "is_region m ts = Inr True \<and>
         (\<exists>p. get_power_of_multiset m = Inr p \<and> p \<le> k) \<and>
         (\<not> is_trivial m \<or> Some m \<in> set (get_candidates ts))"
proof -
  let ?P = "\<lambda>m. is_region m ts = Inr True \<and>
         (\<exists>p. get_power_of_multiset m = Inr p \<and> p \<le> k) \<and>
         (\<not> is_trivial m \<or> Some m \<in> set (get_candidates ts))"
  let ?S = "\<lambda>c. Some c \<in> set (get_candidates ts)"
  from run obtain candidates discovered it0 where
    c: "get_candidates ts = map Some candidates"
    and s: "region_search fuel k ts (remove_supersets (remove_duplicates candidates)) [] [] 0
       = Some (Inr (discovered, explored, it0))"
    and r: "regions = remove_duplicates (remove_supersets discovered)"
    by (rule v1_elim)
  have S0: "\<forall>c\<in>set (remove_supersets (remove_duplicates candidates)). ?S c"
    using set_remove_supersets [of "remove_duplicates candidates"]
      set_remove_duplicates [of candidates] c by auto
  have P0: "\<forall>m\<in>set []. ?P m" by simp
  have "\<forall>m\<in>set discovered. ?P m"
  proof (rule region_search_inv [OF s S0 P0, where Q = "\<lambda>m. True"])
    fix c assume "?S c" "is_region c ts = Inr True"
    then show "?P c" using seed_power [OF k] by blast
  next
    fix i assume "is_valid_candidate k i = Inr True" "is_region i ts = Inr True"
    then show "?P i" using is_valid_candidate_True by blast
  qed simp_all
  moreover have "m \<in> set discovered"
    using m r set_remove_duplicates [of "remove_supersets discovered"]
      set_remove_supersets [of discovered] by auto
  ultimately show ?thesis by blast
qed

theorem returned_regions_valid_witness:
  "(0::int) < 1 \<and>
   generate_all_minimal_regions_v1 10 1 sample_ts =
     Some (Inr ([[(''s_1'', 1), (''s_2'', 0), (''s_3'', 0), (''s_4'', 0)],
         [(''s_1'', 0), (''s_2'', 1), (''s_3'', 1), (''s_4'', 0)],
         [(''s_1'', 0), (''s_2'', 0), (''s_3'', 0), (''s_4'', 1)]],
        [Dict [(''s_1'', 1), (''s_2'', 0), (''s_3'', 0), (''s_4'', 0)],
         Values [0, 1, 0, 0], Values [0, 1, 1, 0], Values [0, 1, 0, 1],
         Values [0, 1, 1, 1], Values [0, 1, 0, 2], Values [0, 0, 1, 0],
         Values [0, 0, 1, 1], Values [0, 0, 1, 2],
         Dict [(''s_1'', 0), (''s_2'', 0), (''s_3'', 0), (''s_4'', 1)]],
        10)) \<and>
   is_region [(''s_1'', 0), (''s_2'', 1), (''s_3'', 1), (''s_4'', 0)] sample_ts = Inr True \<and>
   (\<exists>p. get_power_of_multiset [(''s_1'', 0), (''s_2'', 1), (''s_3'', 1), (''s_4'', 0)] = Inr p \<and>
        p \<le> 1)"
proof -
  have h0: "(0::int) < 1" by simp
  have h1: "generate_all_minimal_regions_v1 10 1 sample_ts =
     Some (Inr ([[(''s_1'', 1), (''s_2'', 0), (''s_3'', 0), (''s_4'', 0)],
         [(''s_1'', 0), (''s_2'', 1), (''s_3'', 1), (''s_4'', 0)],
         [(''s_1'', 0), (''s_2'', 0), (''s_3'', 0), (''s_4'', 1)]],
        [Dict [(''s_1'', 1), (''s_2'', 0), (''s_3'', 0), (''s_4'', 0)],
         Values [0, 1, 0, 0], Values [0, 1, 1, 0], Values [0, 1, 0, 1],
         Values [0, 1, 1, 1], Values [0, 1, 0, 2], Values [0, 0, 1, 0],
         Values [0, 0, 1, 1], Values [0, 0, 1, 2],
         Dict [(''s_1'', 0), (''s_2'', 0), (''s_3'', 0), (''s_4'', 1)]],
        10))"
    by code_simp
  have h2: "[(''s_1'', 0), (''s_2'', 1), (''s_3'', 1), (''s_4'', 0)] \<in>
      set [[(''s_1'', 1), (''s_2'', 0), (''s_3'', 0), (''s_4'', 0)],
         [(''s_1'', 0), (''s_2'', 1), (''s_3'', 1), (''s_4'', 0)],
         [(''s_1'', 0::int), (''s_2'', 0), (''s_3'', 0), (''s_4'', 1)]]"
    by simp
  from returned_regions_valid [OF h0 h1 h2] h0 h1 show ?thesis by blast
qed

text \<open>
  On the single self-loop with \<open>k = 1\<close> the returned region \<open>{s1: 1}\<close> is trivial: it is
  the excitation set of the event, a region, and is returned as it is.
\<close>

theorem self_loop_returns_trivial_region:
  "generate_all_minimal_regions_v1 10 1 self_loop_ts =
     Some (Inr ([[(''s1'', 1)]], [Dict [(''s1'', 1)]], 2)) \<and>
   is_trivial [(''s1'', 1)]"
  by code_simp

section \<open>Markings of the system in the search\<close>

lemma dict_keys_dict_set:
  "dict_keys (dict_set d k v) = (if k \<in> set (dict_keys d) then dict_keys d else dict_keys d @ [k])"
  by (simp add: dict_keys_def dict_set_def update_keys)

lemma keys_fold_init:
  "distinct (dict_keys d) \<Longrightarrow>
     distinct (dict_keys (fold (\<lambda>k d. dict_set d k v) ks d)) \<and>
     set (dict_keys (fold (\<lambda>k d. dict_set d k v) ks d)) = set (dict_keys d) \<union> set ks"
proof (induction ks arbitrary: d)
  case Nil
  then show ?case by simp
next
  case (Cons k ks)
  have "distinct (dict_keys (dict_set d k v))" using Cons.prems by (simp add: dict_keys_dict_set)
  from Cons.IH [OF this] show ?case by (auto simp: dict_keys_dict_set split: if_splits)
qed

lemma keys_fold_step:
  "\<forall>st\<in>set sts. key st \<in> set (dict_keys d) \<Longrightarrow>
     dict_keys (fold (\<lambda>st d. if c st then dict_set d (key st) v else d) sts d) = dict_keys d"
proof (induction sts arbitrary: d)
  case Nil
  then show ?case by simp
next
  case (Cons st sts)
  have k: "dict_keys (if c st then dict_set d (key st) v else d) = dict_keys d"
    using Cons.prems by (simp add: dict_keys_dict_set)
  have "\<forall>s'\<in>set sts. key s' \<in> set (dict_keys (if c st then dict_set d (key st) v else d))"
    using Cons.prems unfolding k by simp
  from Cons.IH [OF this] k show ?case by simp
qed

lemma dict_keys_sort:
  "set (dict_keys (sort d)) = set (dict_keys d)"
  "distinct (dict_keys (sort d)) = distinct (dict_keys d)"
  by (simp_all add: dict_keys_def distinct_map)

lemma indicator_keys:
  assumes "\<forall>st\<in>set sts. key st \<in> set ks"
  shows "distinct (dict_keys (sort (fold (\<lambda>st d. if c st then dict_set d (key st) (1::int) else d) sts
              (fold (\<lambda>k d. dict_set d k 0) ks [])))) \<and>
         set (dict_keys (sort (fold (\<lambda>st d. if c st then dict_set d (key st) (1::int) else d) sts
              (fold (\<lambda>k d. dict_set d k 0) ks [])))) = set ks"
proof -
  let ?d0 = "fold (\<lambda>k d. dict_set d k (0::int)) ks []"
  have d0: "distinct (dict_keys ?d0) \<and> set (dict_keys ?d0) = set ks"
    using keys_fold_init [of "[]" 0 ks] by (simp add: dict_keys_def)
  then have "\<forall>st\<in>set sts. key st \<in> set (dict_keys ?d0)"
    using assms by simp
  then have k1: "dict_keys (fold (\<lambda>st d. if c st then dict_set d (key st) 1 else d) sts ?d0)
                   = dict_keys ?d0"
    by (rule keys_fold_step)
  let ?d1 = "fold (\<lambda>st d. if c st then dict_set d (key st) 1 else d) sts ?d0"
  have "distinct (dict_keys (sort ?d1)) = distinct (dict_keys ?d1)" by (rule dict_keys_sort(2))
  then have a: "distinct (dict_keys (sort ?d1))" using d0 by (simp add: k1)
  have "set (dict_keys (sort ?d1)) = set (dict_keys ?d1)" by (rule dict_keys_sort(1))
  then have b: "set (dict_keys (sort ?d1)) = set ks" using d0 by (simp add: k1)
  from a b show ?thesis by simp
qed

lemma seed_marking_over:
  assumes wf: "wf_ts ts" and seed: "Some m \<in> set (get_candidates ts)"
  shows "marking_over ts m"
proof -
  from get_candidates_cases [OF seed] obtain e where e: "e \<in> set (events ts)"
    and c: "Some m = get_excitation_set_by_event e ts \<or> Some m = get_switching_set_by_event e ts"
    by blast
  have src: "\<forall>st\<in>set (get_all_state_transitions ts). fst st \<in> set (get_state_names ts)"
    and tgt: "\<forall>st\<in>set (get_all_state_transitions ts). snd (snd st) \<in> set (get_state_names ts)"
    using wf_ts_arc [OF wf] by (simp_all add: get_all_state_transitions_def get_state_names_def)
  from c show ?thesis
  proof
    assume "Some m = get_excitation_set_by_event e ts"
    then have "m = sort (fold (\<lambda>st d. if fst (snd st) = e then dict_set d (fst st) 1 else d)
             (get_all_state_transitions ts) (fold (\<lambda>k d. dict_set d k 0) (get_state_names ts) []))"
      by (simp add: get_excitation_set_by_event_def split: if_splits)
    then show ?thesis
      using indicator_keys [OF src, where c = "\<lambda>st. fst (snd st) = e"]
      by (simp add: marking_over_def get_state_names_def)
  next
    assume "Some m = get_switching_set_by_event e ts"
    then have "m = sort (fold (\<lambda>st d. if fst (snd st) = e then dict_set d (snd (snd st)) 1 else d)
             (get_all_state_transitions ts) (fold (\<lambda>k d. dict_set d k 0) (get_state_names ts) []))"
      by (simp add: get_switching_set_by_event_def split: if_splits)
    then show ?thesis
      using indicator_keys [OF tgt, where c = "\<lambda>st. fst (snd st) = e"]
      by (simp add: marking_over_def get_state_names_def)
  qed
qed

lemma mapM_r_fst:
  assumes "\<And>x y. f x = Inr y \<Longrightarrow> fst y = x" and "mapM_r f xs = Inr ys"
  shows "map fst ys = xs"
proof -
  from assms(2) have "list_all2 (\<lambda>x y. f x = Inr y) xs ys" by (simp add: mapM_r_Inr)
  then have "list_all2 (\<lambda>x y. fst y = x) xs ys"
    by (rule list_all2_mono) (rule assms(1))
  then show ?thesis by (induction rule: list_all2_induct) auto
qed

lemma expansion_by_g_keys:
  assumes "get_multiset_expansion_on_event_by_g g e m ts = Inr r1"
  shows "dict_keys r1 = dict_keys m" and "set (dict_keys m) = set (states ts)"
proof -
  from assms have k: "set (dict_keys m) = set (states ts)"
    and r: "mapM_r (\<lambda>key. bind_r (dict_index m key) (\<lambda>v.
                          bind_r (get_delta_g g m e key ts) (\<lambda>d. Inr (key, v + d))))
             (dict_keys m) = Inr r1"
    by (auto simp: get_multiset_expansion_on_event_by_g_def get_state_names_def split: if_splits)
  show "set (dict_keys m) = set (states ts)" by (rule k)
  have "map fst r1 = dict_keys m"
    by (rule mapM_r_fst [OF _ r]) (auto simp: bind_r_eq_Inr)
  then show "dict_keys r1 = dict_keys m" by (simp add: dict_keys_def)
qed

lemma expansion_by_G_keys:
  assumes "get_multiset_expansion_on_event_by_G g e m ts = Inr r1"
  shows "dict_keys r1 = dict_keys m" and "set (dict_keys m) = set (states ts)"
proof -
  from assms have k: "set (dict_keys m) = set (states ts)"
    and r: "mapM_r (\<lambda>key. bind_r (dict_index m key) (\<lambda>v.
                          bind_r (get_delta_G g m e key ts) (\<lambda>d. Inr (key, v + d))))
             (dict_keys m) = Inr r1"
    by (auto simp: get_multiset_expansion_on_event_by_G_def get_state_names_def split: if_splits)
  show "set (dict_keys m) = set (states ts)" by (rule k)
  have "map fst r1 = dict_keys m"
    by (rule mapM_r_fst [OF _ r]) (auto simp: bind_r_eq_Inr)
  then show "dict_keys r1 = dict_keys m" by (simp add: dict_keys_def)
qed

lemma remove_duplicates_loop_distinct:
  "distinct (map sort (remove_duplicates_loop l seen)) \<and>
   (\<forall>x\<in>set (remove_duplicates_loop l seen). sort x \<notin> set seen)"
proof (induction l seen rule: remove_duplicates_loop.induct)
  case (1 seen)
  show ?case by simp
next
  case (2 d ds seen)
  show ?case
  proof (cases "sort d \<in> set seen")
    case True
    with "2.IH"(1) show ?thesis by simp
  next
    case False
    let ?R = "remove_duplicates_loop ds (sort d # seen)"
    from "2.IH"(2) [OF False]
    have dist: "distinct (map sort ?R)" and new: "\<forall>x\<in>set ?R. sort x \<notin> set (sort d # seen)"
      by blast+
    have eq: "remove_duplicates_loop (d # ds) seen = d # ?R"
      using False by simp
    have a: "sort d \<notin> set (map sort ?R)"
    proof
      assume "sort d \<in> set (map sort ?R)"
      then obtain x where "x \<in> set ?R" "sort x = sort d" by (auto simp only: set_map image_iff)
      with new show False by (metis list.set_intros(1))
    qed
    have b: "\<forall>x\<in>set ?R. sort x \<notin> set seen"
    proof
      fix x assume "x \<in> set ?R"
      with new have "sort x \<notin> set (sort d # seen)" by blast
      then show "sort x \<notin> set seen" by (metis list.set_intros(2))
    qed
    show ?thesis unfolding eq using dist a b False by (simp only: list.map distinct.simps set_simps ball_simps) blast
  qed
qed

lemma remove_duplicates_distinct: "distinct (map sort (remove_duplicates l))"
  using remove_duplicates_loop_distinct [of l "[]"] by (simp add: remove_duplicates_def)

lemma marking_over_distinct: "marking_over ts a \<Longrightarrow> distinct a"
  by (auto simp: marking_over_def dict_keys_def distinct_map)

lemma sort_eq_of_pointwise:
  assumes a: "marking_over ts a" and b: "marking_over ts b"
    and eq: "\<forall>s\<in>set (states ts). dict_get a s = dict_get b s"
  shows "sort a = sort b"
proof -
  have ka: "fst ` set a = set (states ts)" and kb: "fst ` set b = set (states ts)"
    using a b by (simp_all add: marking_over_def dict_keys_def)
  have "map_of a s = map_of b s" for s
  proof (cases "s \<in> set (states ts)")
    case True
    with eq show ?thesis by (simp add: dict_get_def)
  next
    case False
    then have "map_of a s = None" "map_of b s = None"
      using ka kb by (simp_all add: map_of_eq_None_iff)
    then show ?thesis by simp
  qed
  then have "map_of a = map_of b" by (rule ext)
  moreover have "distinct (map fst a)" "distinct (map fst b)"
    using a b by (simp_all add: marking_over_def dict_keys_def)
  ultimately have s: "set a = set b" by (simp add: map_of_inject_set)
  show ?thesis
    by (rule sorted_distinct_set_unique)
       (simp_all add: s marking_over_distinct [OF a] marking_over_distinct [OF b])
qed

lemma dict_eq_pointwise:
  "dict_eq b a \<Longrightarrow> \<forall>s\<in>set (dict_keys b). dict_get b s = dict_get a s"
  by (simp add: dict_eq_def list_all_iff)

lemma not_subset_witness:
  assumes a: "marking_over ts a" and b: "marking_over ts b" and ns: "\<not> is_subset b a"
  shows "\<exists>s\<in>set (states ts). \<exists>x y. dict_get a s = Some x \<and> dict_get b s = Some y \<and> x < y"
proof -
  have ke: "keys_eq b a" using a b by (simp add: marking_over_def keys_eq_def)
  with ns have "\<not> list_all (\<lambda>(k, v). v \<le> the (dict_get a k)) b"
    by (simp add: is_subset_def is_subset_try_def)
  then have "\<exists>p\<in>set b. \<not> (case p of (k, v) \<Rightarrow> v \<le> the (dict_get a k))"
    unfolding list_all_iff by blast
  then obtain p where p: "p \<in> set b" and np: "\<not> (case p of (k, v) \<Rightarrow> v \<le> the (dict_get a k))" ..
  obtain k v where pk: "p = (k, v)" by (cases p)
  from p pk have kv: "(k, v) \<in> set b" by simp
  from np pk have nle: "\<not> v \<le> the (dict_get a k)" by simp
  have "fst (k, v) \<in> fst ` set b" using kv by (rule imageI)
  then have kb: "k \<in> set (dict_keys b)" by (simp add: dict_keys_def)
  then have ks: "k \<in> set (states ts)" using b by (simp add: marking_over_def)
  then have ka: "k \<in> set (dict_keys a)" using a by (simp add: marking_over_def)
  from dict_get_mem [OF ka] obtain x where x: "dict_get a k = Some x" ..
  have db: "distinct (map fst b)" using b by (simp add: marking_over_def dict_keys_def)
  have y: "dict_get b k = Some v"
    unfolding dict_get_def using map_of_eq_Some_iff [OF db] kv by blast
  from x nle have lt: "x < v" by simp
  show ?thesis
  proof (rule bexI [OF _ ks])
    show "\<exists>x y. dict_get a k = Some x \<and> dict_get b k = Some y \<and> x < y"
      using x y lt by blast
  qed
qed

lemma marking_over_expansion_g:
  "marking_over ts m \<Longrightarrow> get_multiset_expansion_on_event_by_g g e m ts = Inr r1 \<Longrightarrow>
     marking_over ts r1"
  using expansion_by_g_keys(1) [of g e m ts r1] by (simp add: marking_over_def)

lemma marking_over_expansion_G:
  "marking_over ts m \<Longrightarrow> get_multiset_expansion_on_event_by_G g e m ts = Inr r2 \<Longrightarrow>
     marking_over ts r2"
  using expansion_by_G_keys(1) [of g e m ts r2] by (simp add: marking_over_def)

lemma discovered_marking_over:
  assumes wf: "wf_ts ts"
    and c: "get_candidates ts = map Some candidates"
    and s: "region_search fuel k ts (remove_supersets (remove_duplicates candidates)) [] [] 0
       = Some (Inr (discovered, explored, it0))"
  shows "\<forall>m\<in>set discovered. marking_over ts m"
proof -
  let ?S = "\<lambda>c. Some c \<in> set (get_candidates ts)"
  have S0: "\<forall>c\<in>set (remove_supersets (remove_duplicates candidates)). ?S c"
    using set_remove_supersets [of "remove_duplicates candidates"]
      set_remove_duplicates [of candidates] c by auto
  have P0: "\<forall>m\<in>set []. marking_over ts m" by simp
  show ?thesis
  proof (rule region_search_inv [OF s S0 P0, where Q = "marking_over ts"])
    fix c assume "?S c"
    then show "marking_over ts c" by (rule seed_marking_over [OF wf])
  next
    fix c assume "?S c"
    then show "marking_over ts c" by (rule seed_marking_over [OF wf])
  next
    fix m e g r1
    assume "marking_over ts m" "get_multiset_expansion_on_event_by_g g e m ts = Inr r1"
    then show "marking_over ts r1" by (rule marking_over_expansion_g)
  next
    fix m e g r2
    assume "marking_over ts m" "get_multiset_expansion_on_event_by_G g e m ts = Inr r2"
    then show "marking_over ts r2" by (rule marking_over_expansion_G)
  qed
qed

lemma remove_supersets_kept:
  assumes a: "a \<in> set (remove_supersets l)" and b: "b \<in> set l" and ne: "\<not> dict_eq b a"
  shows "\<not> is_subset b a"
proof -
  from a have "\<not> has_subset_of_list a (filter (\<lambda>e. \<not> dict_eq e a) l)"
    by (simp add: remove_supersets_def)
  then have "\<forall>m\<in>set (filter (\<lambda>e. \<not> dict_eq e a) l). \<not> is_subset m a"
    unfolding has_subset_of_list_def list_ex_iff by blast
  moreover have "b \<in> set (filter (\<lambda>e. \<not> dict_eq e a) l)" using b ne by simp
  ultimately show ?thesis by blast
qed


section \<open>The returned regions are pairwise incomparable\<close>

text \<open>
  Claim C2: in the list of regions returned by \<^verbatim>\<open>generate_all_minimal_regions_v1\<close>
  (for a system whose arcs join states of the system), for any two positions \<open>i \<noteq> j\<close>
  there is a state at which the region at \<open>i\<close> is strictly below the region at \<open>j\<close>.
  So no two returned regions are pointwise equal, and none contains another: the region
  at \<open>j\<close> is not pointwise below the region at \<open>i\<close>.
\<close>

theorem returned_regions_incomparable:
  assumes wf: "wf_ts ts"
    and run: "generate_all_minimal_regions_v1 fuel k ts = Some (Inr (regions, explored, iterations))"
    and i: "i < length regions" and j: "j < length regions" and ij: "i \<noteq> j"
  shows "\<exists>s\<in>set (states ts). \<exists>x y.
           dict_get (regions ! i) s = Some x \<and> dict_get (regions ! j) s = Some y \<and> x < y"
proof -
  from run obtain candidates discovered it0 where
    c: "get_candidates ts = map Some candidates"
    and s: "region_search fuel k ts (remove_supersets (remove_duplicates candidates)) [] [] 0
       = Some (Inr (discovered, explored, it0))"
    and r: "regions = remove_duplicates (remove_supersets discovered)"
    by (rule v1_elim)
  have mo: "\<forall>m\<in>set discovered. marking_over ts m"
    by (rule discovered_marking_over [OF wf c s])
  let ?a = "regions ! i" and ?b = "regions ! j"
  have ai: "?a \<in> set regions" and bj: "?b \<in> set regions" using i j by simp_all
  have sub: "set regions \<subseteq> set (remove_supersets discovered)"
    unfolding r by (rule set_remove_duplicates)
  have a1: "?a \<in> set (remove_supersets discovered)" using ai sub by blast
  have b1: "?b \<in> set discovered" using bj sub set_remove_supersets [of discovered] by blast
  have a2: "?a \<in> set discovered" using a1 set_remove_supersets [of discovered] by blast
  have ma: "marking_over ts ?a" and mb: "marking_over ts ?b" using mo a2 b1 by blast+
  have "distinct (map sort regions)" unfolding r by (rule remove_duplicates_distinct)
  then have "(map sort regions ! i = map sort regions ! j) = (i = j)"
    using i j by (intro nth_eq_iff_index_eq) simp_all
  moreover have "map sort regions ! i = sort ?a" "map sort regions ! j = sort ?b"
    using i j by (simp_all only: nth_map)
  ultimately have ns: "sort ?b \<noteq> sort ?a" using ij by metis
  have npw: "\<not> (\<forall>s\<in>set (states ts). dict_get ?b s = dict_get ?a s)"
    using sort_eq_of_pointwise [OF mb ma] ns by blast
  have "\<not> dict_eq ?b ?a"
  proof
    assume "dict_eq ?b ?a"
    then have "\<forall>s\<in>set (dict_keys ?b). dict_get ?b s = dict_get ?a s" by (rule dict_eq_pointwise)
    with mb npw show False by (simp add: marking_over_def)
  qed
  then have "\<not> is_subset ?b ?a" by (rule remove_supersets_kept [OF a1 b1])
  then show ?thesis by (rule not_subset_witness [OF ma mb])
qed

theorem returned_regions_incomparable_witness:
  "wf_ts sample_ts \<and>
   generate_all_minimal_regions_v1 10 1 sample_ts =
     Some (Inr ([[(''s_1'', 1), (''s_2'', 0), (''s_3'', 0), (''s_4'', 0)],
         [(''s_1'', 0), (''s_2'', 1), (''s_3'', 1), (''s_4'', 0)],
         [(''s_1'', 0), (''s_2'', 0), (''s_3'', 0), (''s_4'', 1)]],
        [Dict [(''s_1'', 1), (''s_2'', 0), (''s_3'', 0), (''s_4'', 0)],
         Values [0, 1, 0, 0], Values [0, 1, 1, 0], Values [0, 1, 0, 1],
         Values [0, 1, 1, 1], Values [0, 1, 0, 2], Values [0, 0, 1, 0],
         Values [0, 0, 1, 1], Values [0, 0, 1, 2],
         Dict [(''s_1'', 0), (''s_2'', 0), (''s_3'', 0), (''s_4'', 1)]],
        10)) \<and>
   (\<exists>s\<in>set (states sample_ts). \<exists>x y.
      dict_get [(''s_1'', 1::int), (''s_2'', 0), (''s_3'', 0), (''s_4'', 0)] s = Some x \<and>
      dict_get [(''s_1'', 0), (''s_2'', 1), (''s_3'', 1), (''s_4'', 0)] s = Some y \<and> x < y)"
proof -
  have h0: "wf_ts sample_ts" by (simp add: wf_ts_def sample_ts_def)
  have h1: "generate_all_minimal_regions_v1 10 1 sample_ts =
     Some (Inr ([[(''s_1'', 1), (''s_2'', 0), (''s_3'', 0), (''s_4'', 0)],
         [(''s_1'', 0), (''s_2'', 1), (''s_3'', 1), (''s_4'', 0)],
         [(''s_1'', 0), (''s_2'', 0), (''s_3'', 0), (''s_4'', 1)]],
        [Dict [(''s_1'', 1), (''s_2'', 0), (''s_3'', 0), (''s_4'', 0)],
         Values [0, 1, 0, 0], Values [0, 1, 1, 0], Values [0, 1, 0, 1],
         Values [0, 1, 1, 1], Values [0, 1, 0, 2], Values [0, 0, 1, 0],
         Values [0, 0, 1, 1], Values [0, 0, 1, 2],
         Dict [(''s_1'', 0), (''s_2'', 0), (''s_3'', 0), (''s_4'', 1)]],
        10))"
    by code_simp
  from returned_regions_incomparable [OF h0 h1, of 0 1]
  have "\<exists>s\<in>set (states sample_ts). \<exists>x y.
      dict_get [(''s_1'', 1::int), (''s_2'', 0), (''s_3'', 0), (''s_4'', 0)] s = Some x \<and>
      dict_get [(''s_1'', 0), (''s_2'', 1), (''s_3'', 1), (''s_4'', 0)] s = Some y \<and> x < y"
    by simp
  with h0 h1 show ?thesis by (intro conjI)
qed

end
